theory Spec2Isabelle
  imports Complex_Main
begin

section \<open>Values thrown by the code\<close>

text \<open>
  Everything the TypeScript throws or rejects with is either an \<open>Error\<close> object, which
  carries a message, or some other value, of which only its \<open>String(...)\<close> rendering is
  ever read (\<open>error instanceof Error ? error.message : String(error)\<close>).
\<close>

datatype thrown = Error string | NonError string

fun message_of :: "thrown \<Rightarrow> string" where
  "message_of (Error m) = m"
| "message_of (NonError s) = s"

section \<open>The rate limiter (class RateLimiter)\<close>

text \<open>
  The fields of the class.  Numbers are JavaScript numbers, read here as reals; the clock
  (\<open>performance.now()\<close> or \<open>Date.now()\<close>) is an argument of every operation that
  reads it.  A queue entry is an object shared between the queue and the closures of
  \<open>acquire\<close>, so the queue holds object identities (naturals) and the mutable field
  \<open>entry.timer\<close> lives in a store.  A timer handle is a natural; \<open>None\<close> is \<open>null\<close>.
\<close>

record RateLimiter =
  tokens :: real
  lastRefill :: real
  queue :: "nat list"
  timer :: "nat option"
  tokensPerSecond :: real
  bucketSize :: real

text \<open>
  What a pending timeout of the JavaScript runtime will run when it fires: the limiter's
  single queue processor, or the per-waiter timeout closure of one entry.
\<close>

datatype callback = ProcessQueue | WaiterTimeout nat

text \<open>The state of the promise returned by \<open>acquire\<close> for one entry.\<close>

datatype pstate = Pending | Resolved | Rejected thrown

text \<open>How an entry left the queue (history kept for stating temporal properties).\<close>

datatype removal = Granted | TimedOut | ShutDown

text \<open>
  The limiter together with the part of the runtime it touches: the store of
  \<open>entry.timer\<close> fields, the promise states, the active one-shot timeouts (handle to
  callback and delay in ms), the allocators of entry identities and timer handles, and
  the history of queue removals.
\<close>

record world = RateLimiter +
  entryTimer :: "nat \<Rightarrow> nat option"
  promise :: "nat \<Rightarrow> pstate"
  timers :: "nat \<Rightarrow> (callback \<times> real) option"
  nextEntry :: nat
  nextTimer :: nat
  removals :: "(nat \<times> removal) list"

subsection \<open>Constructor\<close>

definition newRateLimiter :: "real \<Rightarrow> real \<Rightarrow> bool \<Rightarrow> real \<Rightarrow> thrown + world" where
  "newRateLimiter tps bsize startFull now =
     (if \<not> (tps > 0) then Inl (Error ''tokensPerSecond must be > 0'')
      else if \<not> (bsize > 0) then Inl (Error ''bucketSize must be > 0'')
      else Inr \<lparr> tokens = (if startFull then bsize else 0),
                 lastRefill = now,
                 queue = [],
                 timer = None,
                 tokensPerSecond = tps,
                 bucketSize = bsize,
                 entryTimer = (\<lambda>_. None),
                 promise = (\<lambda>_. Pending),
                 timers = (\<lambda>_. None),
                 nextEntry = 0,
                 nextTimer = 1,
                 removals = [] \<rparr>)"

subsection \<open>refillTokens and tryAcquire\<close>

definition refillTokens :: "real \<Rightarrow> 'a RateLimiter_scheme \<Rightarrow> 'a RateLimiter_scheme" where
  "refillTokens now s =
     (let elapsedMs = now - lastRefill s in
      if elapsedMs \<le> 0 then s
      else let added = (elapsedMs / 1000) * tokensPerSecond s in
           s\<lparr> tokens := min (bucketSize s) (tokens s + added), lastRefill := now \<rparr>)"

definition tryAcquire :: "real \<Rightarrow> 'a RateLimiter_scheme \<Rightarrow> bool \<times> 'a RateLimiter_scheme" where
  "tryAcquire now s =
     (let s1 = refillTokens now s in
      if tokens s1 \<ge> 1 then (True, s1\<lparr> tokens := tokens s1 - 1 \<rparr>)
      else (False, s1))"

subsection \<open>The runtime's timeouts and promises\<close>

text \<open>\<open>setTimeout\<close> allocates a fresh handle; \<open>clearTimeout\<close> deactivates one.\<close>

definition setTimeout :: "callback \<Rightarrow> real \<Rightarrow> world \<Rightarrow> nat \<times> world" where
  "setTimeout cb delay s =
     (nextTimer s,
      s\<lparr> timers := (timers s)(nextTimer s := Some (cb, delay)), nextTimer := Suc (nextTimer s) \<rparr>)"

definition clearTimeout :: "nat \<Rightarrow> world \<Rightarrow> world" where
  "clearTimeout h s = s\<lparr> timers := (timers s)(h := None) \<rparr>"

text \<open>Settling a promise a second time does nothing.\<close>

definition settle :: "nat \<Rightarrow> pstate \<Rightarrow> world \<Rightarrow> world" where
  "settle w v s = (if promise s w = Pending then s\<lparr> promise := (promise s)(w := v) \<rparr> else s)"

text \<open>\<open>if (entry.timer) { clearTimeout(entry.timer); entry.timer = null; }\<close>\<close>

definition clearEntryTimer :: "nat \<Rightarrow> world \<Rightarrow> world" where
  "clearEntryTimer w s =
     (case entryTimer s w of
        None \<Rightarrow> s
      | Some h \<Rightarrow> (clearTimeout h s)\<lparr> entryTimer := (entryTimer s)(w := None) \<rparr>)"

text \<open>The closures \<open>entry.resolve\<close> and \<open>entry.reject\<close> built by \<open>acquire\<close>.\<close>

definition entryResolve :: "nat \<Rightarrow> world \<Rightarrow> world" where
  "entryResolve w s = settle w Resolved (clearEntryTimer w s)"

definition entryReject :: "nat \<Rightarrow> thrown \<Rightarrow> world \<Rightarrow> world" where
  "entryReject w err s = settle w (Rejected err) (clearEntryTimer w s)"

subsection \<open>scheduleProcess, processQueue, acquire, shutdown\<close>

definition scheduleProcess :: "real \<Rightarrow> world \<Rightarrow> world" where
  "scheduleProcess now s =
     (let s1 = refillTokens now s in
      if tokens s1 \<ge> 1 then
        (let (h, s2) = setTimeout ProcessQueue 0 s1 in s2\<lparr> timer := Some h \<rparr>)
      else
        (let missing = 1 - tokens s1;
             waitMs = max 0 ((missing / tokensPerSecond s1) * 1000);
             (h, s2) = setTimeout ProcessQueue (of_int \<lceil>waitMs\<rceil>) s1
         in s2\<lparr> timer := Some h \<rparr>))"

text \<open>The \<open>while\<close> loop of \<open>processQueue\<close>: one waiter and one token per iteration.\<close>

function drainQueue :: "world \<Rightarrow> world" where
  "drainQueue s =
     (case queue s of
        [] \<Rightarrow> s
      | next # rest \<Rightarrow>
          if tokens s \<ge> 1 then
            drainQueue
              (entryResolve next
                (clearEntryTimer next
                  (s\<lparr> queue := rest, tokens := tokens s - 1,
                      removals := removals s @ [(next, Granted)] \<rparr>)))
          else s)"
  by pat_completeness auto

termination drainQueue
  by (relation "measure (\<lambda>s. length (queue s))")
     (auto simp: entryResolve_def settle_def clearEntryTimer_def clearTimeout_def
        split: option.splits)

definition processQueue :: "real \<Rightarrow> real \<Rightarrow> world \<Rightarrow> world" where
  "processQueue now1 now2 s =
     (let s1 = drainQueue (refillTokens now1 (s\<lparr> timer := None \<rparr>)) in
      if queue s1 \<noteq> [] then scheduleProcess now2 s1 else s1)"

text \<open>The closure passed to \<open>setTimeout\<close> for a waiter with a timeout.\<close>

definition waiterTimeout :: "nat \<Rightarrow> world \<Rightarrow> world" where
  "waiterTimeout w s =
     (let s1 = (if w \<in> set (queue s)
                then s\<lparr> queue := remove1 w (queue s),
                        removals := removals s @ [(w, TimedOut)] \<rparr>
                else s)
      in entryReject w (Error ''RateLimiter: acquire timeout'') s1)"

text \<open>
  \<open>acquire(timeoutMs?)\<close>.  The result is \<open>None\<close> for the fast path's already resolved
  promise and \<open>Some w\<close> for the promise of the new entry \<open>w\<close>, whose executor runs at
  once.  The clock is read once by \<open>tryAcquire\<close> and once more by \<open>scheduleProcess\<close>.
\<close>

definition acquire :: "real \<Rightarrow> real \<Rightarrow> real option \<Rightarrow> world \<Rightarrow> nat option \<times> world" where
  "acquire now1 now2 timeoutMs s =
     (let (ok, s1) = tryAcquire now1 s in
      if ok then (None, s1)
      else
        let w = nextEntry s1;
            s2 = s1\<lparr> nextEntry := Suc w,
                     entryTimer := (entryTimer s1)(w := None),
                     promise := (promise s1)(w := Pending) \<rparr>;
            s3 = (case timeoutMs of
                    Some t \<Rightarrow>
                      if t > 0 then
                        (let (h, s') = setTimeout (WaiterTimeout w) t s2
                         in s'\<lparr> entryTimer := (entryTimer s')(w := Some h) \<rparr>)
                      else s2
                  | None \<Rightarrow> s2);
            s4 = s3\<lparr> queue := queue s3 @ [w] \<rparr>;
            s5 = (if timer s4 = None then scheduleProcess now2 s4 else s4)
        in (Some w, s5))"

text \<open>The \<open>while\<close> loop of \<open>shutdown\<close>.\<close>

function rejectAll :: "world \<Rightarrow> world" where
  "rejectAll s =
     (case queue s of
        [] \<Rightarrow> s
      | entry # rest \<Rightarrow>
          rejectAll
            (entryReject entry (Error ''RateLimiter: shutdown'')
              (clearEntryTimer entry
                (s\<lparr> queue := rest, removals := removals s @ [(entry, ShutDown)] \<rparr>))))"
  by pat_completeness auto

termination rejectAll
  by (relation "measure (\<lambda>s. length (queue s))")
     (auto simp: entryReject_def settle_def clearEntryTimer_def clearTimeout_def
        split: option.splits)

definition shutdown :: "world \<Rightarrow> world" where
  "shutdown s =
     rejectAll (case timer s of
                  None \<Rightarrow> s
                | Some h \<Rightarrow> (clearTimeout h s)\<lparr> timer := None \<rparr>)"

subsection \<open>Sequences of operations\<close>

text \<open>
  What can happen to a limiter: a call of one of its public methods, or the runtime firing
  an active timeout.  Firing a handle that is not active (never set, cleared, or already
  fired) does nothing, as in the runtime.  The delay of a timeout is recorded, but an
  active timeout may fire at any time: the runtime promises no more than "not before",
  and what is proved for every order of firing holds for the orders that can happen.
  Every event carries the clock readings its code takes.
\<close>

datatype event =
    TryAcquire real
  | Acquire real real "real option"
  | Fire nat real real
  | Shutdown

definition fire :: "nat \<Rightarrow> real \<Rightarrow> real \<Rightarrow> world \<Rightarrow> world" where
  "fire h now1 now2 s =
     (case timers s h of
        None \<Rightarrow> s
      | Some (cb, delay) \<Rightarrow>
          (let s1 = s\<lparr> timers := (timers s)(h := None) \<rparr> in
           case cb of
             ProcessQueue \<Rightarrow> processQueue now1 now2 s1
           | WaiterTimeout w \<Rightarrow> waiterTimeout w s1))"

fun step :: "event \<Rightarrow> world \<Rightarrow> world" where
  "step (TryAcquire now) s = snd (tryAcquire now s)"
| "step (Acquire now1 now2 t) s = snd (acquire now1 now2 t s)"
| "step (Fire h now1 now2) s = fire h now1 now2 s"
| "step Shutdown s = shutdown s"

fun run :: "event list \<Rightarrow> world \<Rightarrow> world" where
  "run [] s = s"
| "run (e # es) s = run es (step e s)"


section \<open>The orchestrator (class LLMOrchestrator)\<close>

subsection \<open>Data\<close>

text \<open>
  The interfaces \<open>ModelResponse\<close>, \<open>ApiResponse\<close> and \<open>ModelStatus\<close>.  The field
  \<open>id\<close> is \<open>id_r\<close> here and the \<open>model\<close> field of a status is \<open>model_st\<close>, the plain
  names being taken.  The optional \<open>error\<close> field of \<open>ApiResponse\<close> is never written by
  the code and is left out.  \<open>sources\<close> is an array by its type, hence
  \<open>item.sources || []\<close> is \<open>item.sources\<close> (an empty array is truthy).
\<close>

record ModelResponse =
  id_r :: string
  content :: string
  confidence :: real
  sources :: "string list"
  model :: string

record 'a ApiResponse =
  data :: 'a
  timestamp :: int
  source :: string

datatype status = Idle | PendingStatus | Success | ErrorStatus

record ModelStatus =
  model_st :: string
  status :: status
  latency :: "int option"
  error :: "string option"

definition MODELS :: "string list" where
  "MODELS = [''GPT-4o'', ''Claude Sonnet 3.5'', ''Gemini'']"

subsection \<open>Template literals\<close>

text \<open>
  \<open>${n}\<close> for an integer \<open>n\<close>: its decimal digits, least significant digit first
  pushed in front of the digits already produced.
\<close>

definition digit :: "nat \<Rightarrow> char" where
  "digit d = ''0123456789'' ! d"

function decimal :: "nat \<Rightarrow> string \<Rightarrow> string" where
  "decimal n acc =
     (let acc' = digit (n mod 10) # acc
      in if n div 10 = 0 then acc' else decimal (n div 10) acc')"
  by pat_completeness auto

termination decimal
  by (relation "measure fst") auto

definition toString :: "int \<Rightarrow> string" where
  "toString i = (if 0 \<le> i then decimal (nat i) [] else CHR ''-'' # decimal (nat (- i)) [])"

subsection \<open>simulateAPICall\<close>

text \<open>
  The development helper.  \<open>now\<close> is the value of \<open>Date.now()\<close> it reads and \<open>rnd\<close> the
  value of \<open>Math.random()\<close> used for the confidence; the simulated latency only delays
  the result.  It never fails.
\<close>

definition simulateAPICall :: "int \<Rightarrow> real \<Rightarrow> string \<Rightarrow> string \<Rightarrow> ModelResponse list" where
  "simulateAPICall now rnd mdl prompt =
     [\<lparr> id_r = mdl @ ''-'' @ toString now,
        content = ''Simulated response from '' @ mdl,
        confidence = rnd,
        sources = [mdl],
        model = mdl \<rparr>]"

subsection \<open>queryModel\<close>

text \<open>
  What one call of \<open>queryModel\<close> reads from its surroundings: how the awaited
  \<open>limiter.acquire(30_000)\<close> settled, the values of \<open>Math.random()\<close> drawn for the
  jitter of each attempt, and \<open>Date.now()\<close> when the response is built.
\<close>

record queryEnv =
  acquired :: "thrown + unit"
  random :: "nat \<Rightarrow> real"
  dateNow :: int

text \<open>What a call of \<open>queryModel\<close> does besides returning: attempts and backoff sleeps (ms).\<close>

datatype action = Attempt nat | Sleep int

text \<open>Lines 82 to 84: the backoff after a failed attempt, \<open>rnd\<close> being \<open>Math.random()\<close>.\<close>

definition backoffMs :: "nat \<Rightarrow> real \<Rightarrow> int" where
  "backoffMs attempt rnd =
     (let base = 2 ^ attempt * 1000;
          jitter = \<lfloor>rnd * 200\<rfloor>
      in base + jitter)"

text \<open>
  The retry loop, from the value \<open>attempt\<close> of its counter on.  The underlying call is a
  parameter (\<open>simulateAPICall\<close> in development, a provider call in production): \<open>call n\<close>
  is how its invocation in attempt \<open>n\<close> settles.
\<close>

function retryLoop ::
  "(nat \<Rightarrow> thrown + ModelResponse list) \<Rightarrow> 'e queryEnv_scheme \<Rightarrow> string \<Rightarrow> int \<Rightarrow> nat
     \<Rightarrow> (thrown + (ModelResponse list) ApiResponse) \<times> action list" where
  "retryLoop call env mdl retries attempt =
     (if int attempt < retries then
        (case call attempt of
           Inr response \<Rightarrow>
             (Inr \<lparr> data = response, timestamp = dateNow env, source = mdl \<rparr>, [Attempt attempt])
         | Inl err \<Rightarrow>
             if int attempt = retries - 1 then (Inl err, [Attempt attempt])
             else
               (let (r, acts) = retryLoop call env mdl retries (Suc attempt)
                in (r, Attempt attempt # Sleep (backoffMs attempt (random env attempt)) # acts)))
      else (Inl (Error (''Failed after '' @ toString retries @ '' retries'')), []))"
  by pat_completeness auto

termination retryLoop
  by (relation "measure (\<lambda>(call, env, mdl, retries, attempt). nat (retries - int attempt))") auto

text \<open>
  \<open>rateLimiters\<close> is the orchestrator's map from model names to limiters and \<open>apiCall\<close>
  the underlying call: \<open>apiCall mdl prompt n\<close> is how its \<open>n\<close>-th invocation settles.
\<close>

definition queryModel ::
  "(string \<Rightarrow> world option) \<Rightarrow> (string \<Rightarrow> string \<Rightarrow> nat \<Rightarrow> thrown + ModelResponse list)
     \<Rightarrow> 'e queryEnv_scheme \<Rightarrow> string \<Rightarrow> string \<Rightarrow> int
     \<Rightarrow> (thrown + (ModelResponse list) ApiResponse) \<times> action list" where
  "queryModel rateLimiters apiCall env mdl prompt retries =
     (case rateLimiters mdl of
        None \<Rightarrow> (Inl (Error (''No rate limiter for '' @ mdl)), [])
      | Some limiter \<Rightarrow>
          (case acquired env of
             Inl err \<Rightarrow> (Inl err, [])
           | Inr _ \<Rightarrow> retryLoop (apiCall mdl prompt) env mdl retries 0))"

subsection \<open>queryAllModels\<close>

text \<open>Besides what \<open>queryModel\<close> reads, a task reads \<open>Date.now()\<close> before and after it.\<close>

record taskEnv = queryEnv +
  startTime :: int
  endTime :: int

text \<open>
  The observer \<open>onProgress\<close> is code of the caller: a call of it returns (\<open>None\<close>) or
  throws (\<open>Some e\<close>).  Within one invocation of \<open>queryAllModels\<close> no status is passed
  twice (the statuses of different models differ in \<open>model\<close>, those of one task in
  \<open>status\<close>), so what any observer, stateful or not, does in one invocation is a function
  of the status.  \<open>onProgress?.(status)\<close> calls the observer when there is one: \<open>emit\<close>
  is the call made and \<open>notify\<close> how it ends.
\<close>

type_synonym observer = "ModelStatus \<Rightarrow> thrown option"

definition emit :: "observer option \<Rightarrow> ModelStatus \<Rightarrow> ModelStatus list" where
  "emit onProgress st = (case onProgress of None \<Rightarrow> [] | Some obs \<Rightarrow> [st])"

definition notify :: "observer option \<Rightarrow> ModelStatus \<Rightarrow> thrown option" where
  "notify onProgress st = (case onProgress of None \<Rightarrow> None | Some obs \<Rightarrow> obs st)"

text \<open>
  The \<open>catch\<close> block of a task, entered with the caught value and the calls made so far:
  it reports \<open>error\<close> and rethrows, unless the observer throws first.
\<close>

definition catchBlock ::
  "observer option \<Rightarrow> string \<Rightarrow> thrown \<Rightarrow> ModelStatus list
     \<Rightarrow> (thrown + (ModelResponse list) ApiResponse) \<times> ModelStatus list" where
  "catchBlock onProgress mdl err reported =
     (let st = \<lparr> model_st = mdl, status = ErrorStatus, latency = None,
                  error = Some (message_of err) \<rparr>;
          reported' = reported @ emit onProgress st
      in case notify onProgress st of
           None \<Rightarrow> (Inl err, reported')
         | Some e \<Rightarrow> (Inl e, reported'))"

text \<open>
  The async arrow function mapped over the models: its settled outcome and the calls it
  makes to \<open>onProgress\<close>, in order.  The \<open>pending\<close> call is outside the \<open>try\<close>: if it
  throws, the task rejects at once.  The \<open>success\<close> call is inside: if it throws, the
  \<open>catch\<close> block runs as for a failed query.  \<open>queryModel\<close> is called with the default
  \<open>retries = 3\<close>.
\<close>

definition task ::
  "(string \<Rightarrow> world option) \<Rightarrow> (string \<Rightarrow> string \<Rightarrow> nat \<Rightarrow> thrown + ModelResponse list)
     \<Rightarrow> (string \<Rightarrow> taskEnv) \<Rightarrow> string \<Rightarrow> observer option \<Rightarrow> string
     \<Rightarrow> (thrown + (ModelResponse list) ApiResponse) \<times> ModelStatus list" where
  "task rateLimiters apiCall envs prompt onProgress mdl =
     (let pendingSt = \<lparr> model_st = mdl, status = PendingStatus, latency = None, error = None \<rparr>;
          started = emit onProgress pendingSt
      in case notify onProgress pendingSt of
           Some e \<Rightarrow> (Inl e, started)
         | None \<Rightarrow>
             (case fst (queryModel rateLimiters apiCall (envs mdl) mdl prompt 3) of
                Inr result \<Rightarrow>
                  (let successSt = \<lparr> model_st = mdl, status = Success,
                         latency = Some (endTime (envs mdl) - startTime (envs mdl)),
                         error = None \<rparr>;
                       reported = started @ emit onProgress successSt
                   in case notify onProgress successSt of
                        None \<Rightarrow> (Inr result, reported)
                      | Some e \<Rightarrow> catchBlock onProgress mdl e reported)
              | Inl err \<Rightarrow> catchBlock onProgress mdl err started))"

text \<open>\<open>Promise.allSettled\<close>: every promise is awaited, none aborts the others.\<close>

datatype 'a settled = Fulfilled 'a | RejectedWith thrown

definition allSettled :: "(thrown + 'a) list \<Rightarrow> 'a settled list" where
  "allSettled outcomes = map (\<lambda>r. case r of Inl e \<Rightarrow> RejectedWith e | Inr v \<Rightarrow> Fulfilled v) outcomes"

text \<open>The inner \<open>forEach\<close>: push each item, tagged with the model's name.\<close>

definition pushTagged :: "string \<Rightarrow> ModelResponse list \<Rightarrow> ModelResponse list \<Rightarrow> ModelResponse list" where
  "pushTagged modelName responses items =
     foldl (\<lambda>acc item. acc @ [item\<lparr> sources := sources item @ [modelName], model := modelName \<rparr>])
       responses items"

text \<open>The outer \<open>forEach((result, index) => ...)\<close> over the settled results.\<close>

definition combine :: "string list \<Rightarrow> ((ModelResponse list) ApiResponse) settled list \<Rightarrow> ModelResponse list" where
  "combine models results =
     foldl (\<lambda>responses (result, index).
              case result of
                Fulfilled v \<Rightarrow> pushTagged (models ! index) responses (data v)
              | RejectedWith _ \<Rightarrow> responses)
       [] (zip results [0 ..< length results])"

text \<open>
  \<open>queryAllModels\<close> returns the combined responses; the second component is what each
  task, in the order of \<open>MODELS\<close>, reported to \<open>onProgress\<close>.  The tasks run
  concurrently, so the observer sees some interleaving of these per-task sequences.
\<close>

definition queryAllModels ::
  "(string \<Rightarrow> world option) \<Rightarrow> (string \<Rightarrow> string \<Rightarrow> nat \<Rightarrow> thrown + ModelResponse list)
     \<Rightarrow> (string \<Rightarrow> taskEnv) \<Rightarrow> string \<Rightarrow> observer option
     \<Rightarrow> ModelResponse list \<times> ModelStatus list list" where
  "queryAllModels rateLimiters apiCall envs prompt onProgress =
     (let models = MODELS;
          tasks = map (task rateLimiters apiCall envs prompt onProgress) models;
          results = allSettled (map fst tasks)
      in (combine models results, map snd tasks))"

text \<open>
  The built-in backend as an \<open>apiCall\<close>: \<open>clock\<close> and \<open>rand\<close> give the \<open>Date.now()\<close> and
  \<open>Math.random()\<close> read by the \<open>n\<close>-th simulated call for a model.
\<close>

definition simulated ::
  "(string \<Rightarrow> nat \<Rightarrow> int) \<Rightarrow> (string \<Rightarrow> nat \<Rightarrow> real)
     \<Rightarrow> string \<Rightarrow> string \<Rightarrow> nat \<Rightarrow> thrown + ModelResponse list" where
  "simulated clock rand mdl prompt n = Inr (simulateAPICall (clock mdl n) (rand mdl n) mdl prompt)"


section \<open>Auxiliary notions and sample values\<close>

text \<open>The token-bucket part of a limiter, and the invariant of a bucket of capacity \<open>c\<close>.\<close>

definition bucket :: "'a RateLimiter_scheme \<Rightarrow> real \<times> real \<times> real \<times> real" where
  "bucket s = (tokens s, lastRefill s, tokensPerSecond s, bucketSize s)"

definition bucket_ok :: "real \<Rightarrow> 'a RateLimiter_scheme \<Rightarrow> bool" where
  "bucket_ok c s =
     (bucketSize s = c \<and> 0 \<le> tokens s \<and> tokens s \<le> c \<and> 0 < tokensPerSecond s \<and> 0 < c)"

text \<open>A limiter of rate 2 per second and capacity 1, created full at time 0, and a run of it.\<close>

definition demo_limiter :: world where
  "demo_limiter = \<lparr> tokens = 1, lastRefill = 0, queue = [], timer = None,
       tokensPerSecond = 2, bucketSize = 1, entryTimer = (\<lambda>_. None),
       promise = (\<lambda>_. Pending), timers = (\<lambda>_. None), nextEntry = 0, nextTimer = 1,
       removals = [] \<rparr>"

definition demo_events :: "event list" where
  "demo_events =
     [TryAcquire 0, Acquire 0 0 (Some 100), Fire 2 500 500, Fire 1 600 600, Shutdown]"

text \<open>Two more runs of that limiter: a waiter left queued, and a waiter that times out.\<close>

definition queued_events :: "event list" where
  "queued_events = [TryAcquire 0, Acquire 0 0 (Some 100)]"

definition timeout_events :: "event list" where
  "timeout_events = [TryAcquire 0, Acquire 0 0 (Some 100), Fire 1 100 100, Fire 2 500 500]"

text \<open>
  That limiter while busy: one waiter queued, the processing timer pending.
\<close>

definition busy_limiter :: world where
  "busy_limiter = run queued_events demo_limiter"

text \<open>
  What may follow on the busy limiter: a failed \<open>tryAcquire\<close> at 50 ms; the processing
  timer firing at 500 ms; a \<open>shutdown\<close> followed by both timers' due times.
\<close>

definition probe_events :: "event list" where
  "probe_events = [TryAcquire 50]"

definition late_events :: "event list" where
  "late_events = [Fire 2 500 500]"

definition shutdown_events :: "event list" where
  "shutdown_events = [Shutdown, Fire 1 100 100, Fire 2 500 500]"

text \<open>
  What \<open>acquire\<close> reads of a limiter and of the allocators: the bucket, the queue, the
  limiter's timer, and the next entry and timer handle.
\<close>

definition limiterView :: "world \<Rightarrow> (real \<times> real \<times> real \<times> real) \<times> nat list \<times> nat option \<times> nat \<times> nat" where
  "limiterView s = (bucket s, queue s, timer s, nextEntry s, nextTimer s)"

text \<open>The state of \<open>new RateLimiter(2, 5)\<close> created at time 0: a full bucket of capacity 5.\<close>

definition full_limiter :: world where
  "full_limiter = \<lparr> tokens = 5, lastRefill = 0, queue = [], timer = None,
       tokensPerSecond = 2, bucketSize = 5, entryTimer = (\<lambda>_. None),
       promise = (\<lambda>_. Pending), timers = (\<lambda>_. None), nextEntry = 0, nextTimer = 1,
       removals = [] \<rparr>"

text \<open>How the promise of an entry is settled by each kind of removal.\<close>

fun outcome :: "removal \<Rightarrow> pstate" where
  "outcome Granted = Resolved"
| "outcome TimedOut = Rejected (Error ''RateLimiter: acquire timeout'')"
| "outcome ShutDown = Rejected (Error ''RateLimiter: shutdown'')"

text \<open>
  The queue invariant: queued entries are distinct, allocated, pending and not yet removed;
  an active per-waiter timeout belongs to a queued entry and is the one stored in its
  \<open>timer\<close> field; no entry was removed twice; a removed entry is settled accordingly.
\<close>

definition INV :: "world \<Rightarrow> bool" where
  "INV s \<longleftrightarrow>
     distinct (queue s) \<and> distinct (map fst (removals s)) \<and>
     (\<forall>w\<in>set (queue s). w < nextEntry s \<and> promise s w = Pending \<and> w \<notin> fst ` set (removals s)) \<and>
     (\<forall>h w d. timers s h = Some (WaiterTimeout w, d) \<longrightarrow> w \<in> set (queue s) \<and> entryTimer s w = Some h) \<and>
     (\<forall>(w, r)\<in>set (removals s). w < nextEntry s \<and> promise s w = outcome r)"

text \<open>
  The timer invariant: the timer stored in an entry is an active timeout of that entry, the
  limiter's own timer is an active queue-processing timeout, and active handles were
  allocated.
\<close>

definition TINV :: "world \<Rightarrow> bool" where
  "TINV s \<longleftrightarrow>
     (\<forall>u h. entryTimer s u = Some h \<longrightarrow> (\<exists>d. timers s h = Some (WaiterTimeout u, d))) \<and>
     (\<forall>h. timer s = Some h \<longrightarrow> (\<exists>d. timers s h = Some (ProcessQueue, d))) \<and>
     (\<forall>h x. timers s h = Some x \<longrightarrow> h < nextTimer s)"

text \<open>The slow path of \<open>acquire\<close> up to and including \<open>this.queue.push(entry)\<close>.\<close>

definition enqueued :: "real option \<Rightarrow> world \<Rightarrow> world" where
  "enqueued timeoutMs s1 =
     (let w = nextEntry s1;
          s2 = s1\<lparr> nextEntry := Suc w,
                   entryTimer := (entryTimer s1)(w := None),
                   promise := (promise s1)(w := Pending) \<rparr>;
          s3 = (case timeoutMs of
                  Some t \<Rightarrow>
                    if t > 0 then
                      (let (h, s') = setTimeout (WaiterTimeout w) t s2
                       in s'\<lparr> entryTimer := (entryTimer s')(w := Some h) \<rparr>)
                    else s2
                | None \<Rightarrow> s2)
      in s3\<lparr> queue := queue s3 @ [w] \<rparr>)"

text \<open>\<open>typeof timeoutMs === 'number' && timeoutMs > 0\<close>\<close>

definition attached :: "real option \<Rightarrow> bool" where
  "attached timeoutMs = (case timeoutMs of Some t \<Rightarrow> t > 0 | None \<Rightarrow> False)"

text \<open>
  An allocated entry that has no active timeout, never timed out, and is either still
  queued or was granted a token or rejected by \<open>shutdown\<close>.
\<close>

definition untimed :: "nat \<Rightarrow> world \<Rightarrow> bool" where
  "untimed w s \<longleftrightarrow>
     w < nextEntry s \<and>
     (\<forall>h d. timers s h \<noteq> Some (WaiterTimeout w, d)) \<and>
     (w, TimedOut) \<notin> set (removals s) \<and>
     (w \<in> set (queue s) \<or> (w, Granted) \<in> set (removals s) \<or> (w, ShutDown) \<in> set (removals s))"

text \<open>
  An entry \<open>w\<close> whose timeout, of handle \<open>h\<close> and delay \<open>t\<close>, stays with it: while
  the entry is queued the timeout is the entry's timer and is active; once the entry is out
  of the queue, its removal is on record.
\<close>

definition timed :: "nat \<Rightarrow> nat \<Rightarrow> real \<Rightarrow> world \<Rightarrow> bool" where
  "timed w h t s \<longleftrightarrow>
     (w \<in> set (queue s) \<longrightarrow> entryTimer s w = Some h \<and> timers s h = Some (WaiterTimeout w, t)) \<and>
     (w \<notin> set (queue s) \<longrightarrow> w \<in> fst ` set (removals s))"

text \<open>The number of times an entry left the queue.\<close>

definition removalCount :: "nat \<Rightarrow> world \<Rightarrow> nat" where
  "removalCount w s = length (filter (\<lambda>p. fst p = w) (removals s))"

text \<open>The tagging done by \<open>queryAllModels\<close>, and what one settled task contributes.\<close>

definition tag :: "string \<Rightarrow> ModelResponse \<Rightarrow> ModelResponse" where
  "tag modelName item = item\<lparr> sources := sources item @ [modelName], model := modelName \<rparr>"

definition contribution ::
  "string \<Rightarrow> (thrown + (ModelResponse list) ApiResponse) \<Rightarrow> ModelResponse list" where
  "contribution modelName settled =
     (case settled of Inr r \<Rightarrow> map (tag modelName) (data r) | Inl _ \<Rightarrow> [])"

text \<open>The status objects a task passes to \<open>onProgress\<close>.\<close>

definition pendingEvent :: "string \<Rightarrow> ModelStatus" where
  "pendingEvent mdl = \<lparr> model_st = mdl, status = PendingStatus, latency = None, error = None \<rparr>"

definition successEvent :: "(string \<Rightarrow> taskEnv) \<Rightarrow> string \<Rightarrow> ModelStatus" where
  "successEvent envs mdl =
     \<lparr> model_st = mdl, status = Success,
       latency = Some (endTime (envs mdl) - startTime (envs mdl)), error = None \<rparr>"

definition errorEvent :: "string \<Rightarrow> thrown \<Rightarrow> ModelStatus" where
  "errorEvent mdl e =
     \<lparr> model_st = mdl, status = ErrorStatus, latency = None, error = Some (message_of e) \<rparr>"

text \<open>
  The calls a task makes after a \<open>pending\<close> call that returned, given how its query
  settled: \<open>success\<close> or \<open>error\<close>, and \<open>error\<close> after \<open>success\<close> when the observer
  threw at \<open>success\<close>.
\<close>

definition laterEvents ::
  "observer option \<Rightarrow> (string \<Rightarrow> taskEnv) \<Rightarrow> string
     \<Rightarrow> (thrown + (ModelResponse list) ApiResponse) \<Rightarrow> ModelStatus list" where
  "laterEvents onProgress envs mdl settled =
     (case settled of
        Inr r \<Rightarrow>
          emit onProgress (successEvent envs mdl) @
          (case notify onProgress (successEvent envs mdl) of
             None \<Rightarrow> []
           | Some e \<Rightarrow> emit onProgress (errorEvent mdl e))
      | Inl e \<Rightarrow> emit onProgress (errorEvent mdl e))"

text \<open>
  Whether a task fulfils, given how its query settled: the query succeeded and neither
  the \<open>pending\<close> nor the \<open>success\<close> call threw.
\<close>

definition fulfils ::
  "observer option \<Rightarrow> (string \<Rightarrow> taskEnv) \<Rightarrow> string
     \<Rightarrow> (thrown + (ModelResponse list) ApiResponse) \<Rightarrow> bool" where
  "fulfils onProgress envs mdl settled =
     (case settled of
        Inr r \<Rightarrow> notify onProgress (pendingEvent mdl) = None \<and>
                 notify onProgress (successEvent envs mdl) = None
      | Inl _ \<Rightarrow> False)"


definition quiet :: observer where
  "quiet st = None"

text \<open>The backoff waits among the actions of a call of \<open>queryModel\<close>, in order.\<close>

fun sleeps :: "action list \<Rightarrow> int list" where
  "sleeps [] = []"
| "sleeps (Sleep d # acts) = d # sleeps acts"
| "sleeps (Attempt n # acts) = sleeps acts"

text \<open>
  Sample surroundings: a backend that always fails and one that fails twice and then
  answers; a limiter for every model; environments in which \<open>acquire\<close> succeeds, or
  times out for one model; fixed readings of the clock and of \<open>Math.random()\<close>.
\<close>

definition failing :: "string \<Rightarrow> string \<Rightarrow> nat \<Rightarrow> thrown + ModelResponse list" where
  "failing mdl prompt n = Inl (Error ''unavailable'')"

definition calm_env :: queryEnv where
  "calm_env = \<lparr> acquired = Inr (), random = (\<lambda>_. 0), dateNow = 0 \<rparr>"

definition one_limiter :: "string \<Rightarrow> world option" where
  "one_limiter mdl = Some demo_limiter"

definition flaky :: "string \<Rightarrow> string \<Rightarrow> nat \<Rightarrow> thrown + ModelResponse list" where
  "flaky mdl prompt n =
     (if n < 2 then Inl (Error ''unavailable'') else Inr (simulateAPICall 1650 (1 / 4) mdl prompt))"

definition jitter_env :: queryEnv where
  "jitter_env = \<lparr> acquired = Inr (), random = (\<lambda>_. 1 / 2), dateNow = 1700 \<rparr>"

definition sample_envs :: "string \<Rightarrow> taskEnv" where
  "sample_envs mdl =
     \<lparr> acquired = (if mdl = ''Claude Sonnet 3.5''
                   then Inl (Error ''RateLimiter: acquire timeout'') else Inr ()),
       random = (\<lambda>_. 1 / 2), dateNow = 1700, startTime = 1000, endTime = 1700 \<rparr>"


definition sample_clock :: "string \<Rightarrow> nat \<Rightarrow> int" where
  "sample_clock mdl n = 1650"

definition sample_rand :: "string \<Rightarrow> nat \<Rightarrow> real" where
  "sample_rand mdl n = 1 / 4"

text \<open>The loops are unfolded by hand, one iteration at a time.\<close>

declare drainQueue.simps [simp del] rejectAll.simps [simp del]
declare retryLoop.simps [simp del] decimal.simps [simp del]

text \<open>The definitions that evaluate a run of the limiter.\<close>

lemmas limiter_eval =
  tryAcquire_def acquire_def refillTokens_def scheduleProcess_def setTimeout_def fire_def
  processQueue_def drainQueue.simps entryResolve_def clearEntryTimer_def clearTimeout_def
  settle_def shutdown_def rejectAll.simps waiterTimeout_def entryReject_def Let_def


section \<open>Properties of the rate limiter\<close>

subsection \<open>The bucket invariant\<close>

lemma queue_clearEntryTimer [simp]: "queue (clearEntryTimer w s) = queue s"
  by (simp add: clearEntryTimer_def clearTimeout_def split: option.splits)

lemma queue_settle [simp]: "queue (settle w v s) = queue s"
  by (simp add: settle_def)

lemma queue_entryResolve [simp]: "queue (entryResolve w s) = queue s"
  by (simp add: entryResolve_def)

lemma queue_entryReject [simp]: "queue (entryReject w e s) = queue s"
  by (simp add: entryReject_def)

lemma bucket_ok_cong: "bucket s' = bucket s \<Longrightarrow> bucket_ok c s' = bucket_ok c s"
  by (simp add: bucket_def bucket_ok_def)

lemma refillTokens_consts [simp]:
  "tokensPerSecond (refillTokens now s) = tokensPerSecond s"
  "bucketSize (refillTokens now s) = bucketSize s"
  by (simp_all add: refillTokens_def Let_def)

lemma refillTokens_ok: "bucket_ok c s \<Longrightarrow> bucket_ok c (refillTokens now s)"
  unfolding bucket_ok_def refillTokens_def Let_def
  by (auto simp: min_def intro: add_nonneg_nonneg mult_nonneg_nonneg)

lemma tryAcquire_consts [simp]:
  "tokensPerSecond (snd (tryAcquire now s)) = tokensPerSecond s"
  "bucketSize (snd (tryAcquire now s)) = bucketSize s"
  by (simp_all add: tryAcquire_def Let_def)

lemma tryAcquire_ok: "bucket_ok c s \<Longrightarrow> bucket_ok c (snd (tryAcquire now s))"
  using refillTokens_ok [of c s now]
  by (auto simp: tryAcquire_def Let_def bucket_ok_def)

lemma setTimeout_fields [simp]:
  "tokens (snd (setTimeout cb d s)) = tokens s"
  "lastRefill (snd (setTimeout cb d s)) = lastRefill s"
  "tokensPerSecond (snd (setTimeout cb d s)) = tokensPerSecond s"
  "bucketSize (snd (setTimeout cb d s)) = bucketSize s"
  by (simp_all add: setTimeout_def)

lemma clearTimeout_fields [simp]:
  "tokens (clearTimeout h s) = tokens s"
  "lastRefill (clearTimeout h s) = lastRefill s"
  "tokensPerSecond (clearTimeout h s) = tokensPerSecond s"
  "bucketSize (clearTimeout h s) = bucketSize s"
  by (simp_all add: clearTimeout_def)

lemma settle_fields [simp]:
  "tokens (settle w v s) = tokens s"
  "lastRefill (settle w v s) = lastRefill s"
  "tokensPerSecond (settle w v s) = tokensPerSecond s"
  "bucketSize (settle w v s) = bucketSize s"
  by (simp_all add: settle_def)

lemma clearEntryTimer_fields [simp]:
  "tokens (clearEntryTimer w s) = tokens s"
  "lastRefill (clearEntryTimer w s) = lastRefill s"
  "tokensPerSecond (clearEntryTimer w s) = tokensPerSecond s"
  "bucketSize (clearEntryTimer w s) = bucketSize s"
  by (simp_all add: clearEntryTimer_def split: option.splits)

lemma entryResolve_fields [simp]:
  "tokens (entryResolve w s) = tokens s"
  "lastRefill (entryResolve w s) = lastRefill s"
  "tokensPerSecond (entryResolve w s) = tokensPerSecond s"
  "bucketSize (entryResolve w s) = bucketSize s"
  by (simp_all add: entryResolve_def)

lemma entryReject_fields [simp]:
  "tokens (entryReject w e s) = tokens s"
  "lastRefill (entryReject w e s) = lastRefill s"
  "tokensPerSecond (entryReject w e s) = tokensPerSecond s"
  "bucketSize (entryReject w e s) = bucketSize s"
  by (simp_all add: entryReject_def)

lemma scheduleProcess_bucket: "bucket (scheduleProcess now s) = bucket (refillTokens now s)"
  by (simp add: scheduleProcess_def Let_def setTimeout_def bucket_def)

lemma scheduleProcess_ok: "bucket_ok c s \<Longrightarrow> bucket_ok c (scheduleProcess now s)"
  using refillTokens_ok [of c s now] bucket_ok_cong [OF scheduleProcess_bucket] by simp

lemma drainQueue_ok: "bucket_ok c s \<Longrightarrow> bucket_ok c (drainQueue s)"
proof (induction s rule: drainQueue.induct)
  case (1 s)
  show ?case
  proof (cases "queue s")
    case Nil
    with 1 show ?thesis by (simp add: drainQueue.simps [of s])
  next
    case (Cons nxt rest)
    show ?thesis
    proof (cases "tokens s \<ge> 1")
      case False
      with Cons 1 show ?thesis by (simp add: drainQueue.simps [of s])
    next
      case True
      let ?s' = "entryResolve nxt (clearEntryTimer nxt
                  (s\<lparr> queue := rest, tokens := tokens s - 1,
                      removals := removals s @ [(nxt, Granted)] \<rparr>))"
      have "bucket_ok c ?s'"
        using True "1.prems" by (simp add: bucket_ok_def)
      then have "bucket_ok c (drainQueue ?s')"
        using "1.IH" [OF Cons True] by simp
      then show ?thesis using Cons True by (simp add: drainQueue.simps [of s])
    qed
  qed
qed

lemma rejectAll_bucket: "bucket (rejectAll s) = bucket s"
proof (induction s rule: rejectAll.induct)
  case (1 s)
  show ?case
  proof (cases "queue s")
    case Nil
    then show ?thesis by (simp add: rejectAll.simps [of s])
  next
    case (Cons e rest)
    then show ?thesis using 1 [OF Cons] by (simp add: rejectAll.simps [of s] bucket_def)
  qed
qed

lemma shutdown_bucket: "bucket (shutdown s) = bucket s"
  by (simp add: shutdown_def rejectAll_bucket split: option.splits) (simp add: bucket_def)

lemma processQueue_ok: "bucket_ok c s \<Longrightarrow> bucket_ok c (processQueue now1 now2 s)"
proof -
  assume ok: "bucket_ok c s"
  have "bucket_ok c (s\<lparr> timer := None \<rparr>)" using ok by (simp add: bucket_ok_def)
  then have "bucket_ok c (drainQueue (refillTokens now1 (s\<lparr> timer := None \<rparr>)))"
    by (intro drainQueue_ok refillTokens_ok)
  then show ?thesis
    by (simp add: processQueue_def Let_def scheduleProcess_ok)
qed

lemma waiterTimeout_bucket: "bucket (waiterTimeout w s) = bucket s"
  by (simp add: waiterTimeout_def Let_def bucket_def)

lemma fire_ok: "bucket_ok c s \<Longrightarrow> bucket_ok c (fire h now1 now2 s)"
proof -
  assume ok: "bucket_ok c s"
  have a: "bucket_ok c (s\<lparr> timers := (timers s)(h := None) \<rparr>)" using ok by (simp add: bucket_ok_def)
  show ?thesis
    using ok a processQueue_ok [OF a] bucket_ok_cong [OF waiterTimeout_bucket]
    by (simp add: fire_def Let_def split: option.splits callback.splits prod.splits)
qed

lemma acquire_ok:
  assumes "bucket_ok c s"
  shows "bucket_ok c (snd (acquire now1 now2 t s))"
proof -
  obtain ok s1 where t: "tryAcquire now1 s = (ok, s1)" by fastforce
  have s1: "bucket_ok c s1" using tryAcquire_ok [OF assms, of now1] t by simp
  define s2 where "s2 = s1\<lparr> nextEntry := Suc (nextEntry s1),
                     entryTimer := (entryTimer s1)(nextEntry s1 := None),
                     promise := (promise s1)(nextEntry s1 := Pending) \<rparr>"
  define s3 where "s3 = (case t of
                    Some d \<Rightarrow>
                      if d > 0 then
                        (let (h, s') = setTimeout (WaiterTimeout (nextEntry s1)) d s2
                         in s'\<lparr> entryTimer := (entryTimer s')(nextEntry s1 := Some h) \<rparr>)
                      else s2
                  | None \<Rightarrow> s2)"
  define s4 where "s4 = s3\<lparr> queue := queue s3 @ [nextEntry s1] \<rparr>"
  have "bucket_ok c s2" using s1 by (simp add: s2_def bucket_ok_def)
  then have "bucket_ok c s3"
    by (simp add: s3_def bucket_ok_def setTimeout_def split: option.splits)
  then have s4: "bucket_ok c s4" by (simp add: s4_def bucket_ok_def)
  have "snd (acquire now1 now2 t s) =
          (if ok then s1 else if timer s4 = None then scheduleProcess now2 s4 else s4)"
    by (cases t) (simp_all add: acquire_def t Let_def s2_def s3_def s4_def)
  then show ?thesis using s1 s4 by (simp add: scheduleProcess_ok)
qed

lemma step_ok: "bucket_ok c s \<Longrightarrow> bucket_ok c (step e s)"
  using bucket_ok_cong [OF shutdown_bucket]
  by (cases e) (simp_all add: tryAcquire_ok acquire_ok fire_ok)

lemma run_ok: "bucket_ok c s \<Longrightarrow> bucket_ok c (run es s)"
  by (induction es arbitrary: s) (simp_all add: step_ok)

lemma newRateLimiter_ok: "newRateLimiter r c sf t0 = Inr s0 \<Longrightarrow> bucket_ok c s0"
  by (auto simp: newRateLimiter_def bucket_ok_def split: if_splits)

text \<open>
  Claim C3.  On a limiter constructed with capacity \<open>c\<close>, after every sequence of
  operations (\<open>tryAcquire\<close>, \<open>acquire\<close>, timers firing and so queue processing and
  waiter timeouts, \<open>shutdown\<close>) the token count is between \<open>0\<close> and \<open>c\<close>.
\<close>

theorem tokens_within_capacity:
  "newRateLimiter r c startFull t0 = Inr s0 \<Longrightarrow>
     0 \<le> tokens (run evs s0) \<and> tokens (run evs s0) \<le> c"
  using run_ok [OF newRateLimiter_ok, of r c startFull t0 s0 evs]
  by (simp add: bucket_ok_def)

lemma demo_new: "newRateLimiter 2 1 True 0 = Inr demo_limiter"
  by (simp add: newRateLimiter_def demo_limiter_def)

lemma demo_run_tokens:
  "tokens (run [TryAcquire 0] demo_limiter) = 0"
  "tokens (run [TryAcquire 0, TryAcquire 250] demo_limiter) = 1 / 2"
  "tokens (run demo_events demo_limiter) = 0"
  by (simp_all add: demo_events_def demo_limiter_def tryAcquire_def acquire_def refillTokens_def
      scheduleProcess_def setTimeout_def fire_def processQueue_def drainQueue.simps
      entryResolve_def clearEntryTimer_def clearTimeout_def settle_def shutdown_def
      rejectAll.simps waiterTimeout_def entryReject_def Let_def)

theorem tokens_within_capacity_witness:
  "newRateLimiter 2 1 True 0 = Inr demo_limiter \<and>
   tokens (run [TryAcquire 0, TryAcquire 250] demo_limiter) = 1 / 2 \<and>
   tokens (run demo_events demo_limiter) = 0 \<and>
   0 \<le> tokens (run demo_events demo_limiter) \<and> tokens (run demo_events demo_limiter) \<le> 1"
  using tokens_within_capacity [OF demo_new, of demo_events] demo_new demo_run_tokens by simp



subsection \<open>tryAcquire and the lazy refill\<close>

lemma refillTokens_formula:
  assumes "lastRefill s \<le> now" and "tokens s \<le> bucketSize s"
  shows "refillTokens now s =
           s\<lparr> tokens := min (bucketSize s) (tokens s + ((now - lastRefill s) / 1000) * tokensPerSecond s),
              lastRefill := now \<rparr>"
proof (cases "now - lastRefill s \<le> 0")
  case True
  with assms have "now = lastRefill s" by simp
  then show ?thesis using assms by (simp add: refillTokens_def)
next
  case False
  then show ?thesis by (simp add: refillTokens_def Let_def)
qed

text \<open>
  Claim C4.  With a clock that has not gone backwards since the last refill, on a bucket
  within its capacity, \<open>tryAcquire\<close> first refills to
  \<open>min(capacity, tokens + elapsed_seconds * refillRate)\<close> and moves \<open>lastRefill\<close> to now;
  then, if that count is at least 1, it takes one token and returns true, and otherwise
  it returns false and changes nothing more.
\<close>

theorem tryAcquire_refill_then_take:
  assumes "lastRefill s \<le> now" and "tokens s \<le> bucketSize s"
  shows "tryAcquire now s =
           (let elapsed_seconds = (now - lastRefill s) / 1000;
                refilled = min (bucketSize s) (tokens s + elapsed_seconds * tokensPerSecond s)
            in if refilled \<ge> 1
               then (True, s\<lparr> tokens := refilled - 1, lastRefill := now \<rparr>)
               else (False, s\<lparr> tokens := refilled, lastRefill := now \<rparr>))"
  by (simp add: tryAcquire_def Let_def refillTokens_formula [OF assms])

theorem tryAcquire_refill_then_take_witness:
  "lastRefill demo_limiter \<le> 250 \<and> tokens demo_limiter \<le> bucketSize demo_limiter \<and>
   tryAcquire 250 demo_limiter = (True, demo_limiter\<lparr> tokens := 0, lastRefill := 250 \<rparr>) \<and>
   tryAcquire 250 (demo_limiter\<lparr> tokens := 0 \<rparr>) =
     (False, demo_limiter\<lparr> tokens := 1 / 2, lastRefill := 250 \<rparr>)"
  using tryAcquire_refill_then_take [of demo_limiter 250]
        tryAcquire_refill_then_take [of "demo_limiter\<lparr> tokens := 0 \<rparr>" 250]
  by (simp add: demo_limiter_def)

text \<open>
  Claim C5 as stated fails: a full bucket of capacity 5 and rate 2 gains nothing in one
  second, while \<open>min(capacity, r * dt)\<close> is 2.
\<close>

theorem refill_increase_counterexample:
  "newRateLimiter 2 5 True 0 = Inr full_limiter \<and>
   tokens (refillTokens 1000 full_limiter) - tokens full_limiter = 0 \<and>
   min (bucketSize full_limiter)
       (tokensPerSecond full_limiter * ((1000 - lastRefill full_limiter) / 1000)) = 2 \<and>
   tokens (refillTokens 1000 full_limiter) - tokens full_limiter
     \<noteq> min (bucketSize full_limiter)
           (tokensPerSecond full_limiter * ((1000 - lastRefill full_limiter) / 1000))"
  by (simp add: newRateLimiter_def refillTokens_def full_limiter_def)

text \<open>
  Claim C5, amended.  On a bucket within its capacity, a refill \<open>dt \<ge> 0\<close> seconds after
  the last one, with no acquisition in between, raises the token count by exactly
  \<open>min(capacity - tokens, r * dt)\<close>: the count becomes \<open>min(capacity, tokens + r * dt)\<close>.
\<close>

theorem refill_increase:
  assumes "0 \<le> dt" and "tokens s \<le> bucketSize s"
  shows "tokens (refillTokens (lastRefill s + dt * 1000) s) - tokens s
           = min (bucketSize s - tokens s) (tokensPerSecond s * dt)"
  using assms by (auto simp: refillTokens_def Let_def min_def mult.commute)

theorem refill_increase_witness:
  "(0::real) \<le> 1 / 4 \<and>
   tokens (demo_limiter\<lparr> tokens := 0 \<rparr>) \<le> bucketSize (demo_limiter\<lparr> tokens := 0 \<rparr>) \<and>
   tokens (refillTokens (0 + 1 / 4 * 1000) (demo_limiter\<lparr> tokens := 0 \<rparr>)) - 0 = 1 / 2"
  using refill_increase [of "1 / 4" "demo_limiter\<lparr> tokens := 0 \<rparr>"]
  by (simp add: demo_limiter_def)

subsection \<open>shutdown\<close>

lemma clearEntryTimer_frame [simp]:
  "timer (clearEntryTimer w s) = timer s"
  "nextEntry (clearEntryTimer w s) = nextEntry s"
  "nextTimer (clearEntryTimer w s) = nextTimer s"
  by (simp_all add: clearEntryTimer_def clearTimeout_def split: option.splits)

lemma settle_frame [simp]:
  "timer (settle w v s) = timer s"
  "nextEntry (settle w v s) = nextEntry s"
  "nextTimer (settle w v s) = nextTimer s"
  by (simp_all add: settle_def)

lemma entryReject_frame [simp]:
  "timer (entryReject w e s) = timer s"
  "nextEntry (entryReject w e s) = nextEntry s"
  "nextTimer (entryReject w e s) = nextTimer s"
  by (simp_all add: entryReject_def)

lemma rejectAll_frame:
  "queue (rejectAll s) = [] \<and> timer (rejectAll s) = timer s \<and> nextEntry (rejectAll s) = nextEntry s"
proof (induction s rule: rejectAll.induct)
  case (1 s)
  show ?case
  proof (cases "queue s")
    case Nil
    then show ?thesis by (simp add: rejectAll.simps [of s])
  next
    case (Cons e rest)
    then show ?thesis using 1 [OF Cons] by (simp add: rejectAll.simps [of s])
  qed
qed

lemma shutdown_frame:
  "queue (shutdown s) = [] \<and> timer (shutdown s) = None \<and> nextEntry (shutdown s) = nextEntry s"
  by (simp add: shutdown_def rejectAll_frame clearTimeout_def split: option.splits)

lemma tryAcquire_bucket:
  "bucket s' = bucket s \<Longrightarrow>
     fst (tryAcquire now s') = fst (tryAcquire now s) \<and>
     bucket (snd (tryAcquire now s')) = bucket (snd (tryAcquire now s))"
  by (simp add: bucket_def tryAcquire_def refillTokens_def Let_def)

lemma acquire_fast:
  "fst (tryAcquire now1 s) \<Longrightarrow> acquire now1 now2 t s = (None, snd (tryAcquire now1 s))"
  by (cases "tryAcquire now1 s") (simp add: acquire_def)

lemma scheduleProcess_frame [simp]:
  "queue (scheduleProcess now s) = queue s"
  "promise (scheduleProcess now s) = promise s"
  "timer (scheduleProcess now s) = Some (nextTimer s)"
  by (simp_all add: scheduleProcess_def refillTokens_def setTimeout_def Let_def)

lemma tryAcquire_frame [simp]:
  "queue (snd (tryAcquire now s)) = queue s"
  "timer (snd (tryAcquire now s)) = timer s"
  "nextEntry (snd (tryAcquire now s)) = nextEntry s"
  by (simp_all add: tryAcquire_def refillTokens_def Let_def)

lemma acquire_slow:
  assumes "\<not> fst (tryAcquire now1 s)"
  shows "fst (acquire now1 now2 t s) = Some (nextEntry s) \<and>
         queue (snd (acquire now1 now2 t s)) = queue s @ [nextEntry s] \<and>
         promise (snd (acquire now1 now2 t s)) (nextEntry s) = Pending \<and>
         timer (snd (acquire now1 now2 t s)) \<noteq> None"
proof -
  obtain s1 where t: "tryAcquire now1 s = (False, s1)"
    using assms by (cases "tryAcquire now1 s") auto
  have f: "queue s1 = queue s" "nextEntry s1 = nextEntry s"
    using tryAcquire_frame [of now1 s] t by simp_all
  show ?thesis
    by (cases t) (simp_all add: acquire_def t f Let_def setTimeout_def)
qed

subsection \<open>The queue invariant\<close>

lemma INV_bucket_upd [simp]:
  "INV (s\<lparr> tokens := x \<rparr>) = INV s"
  "INV (s\<lparr> lastRefill := y \<rparr>) = INV s"
  "INV (s\<lparr> timer := z \<rparr>) = INV s"
  by (simp_all add: INV_def)

lemma INV_refillTokens [simp]: "INV (refillTokens now s) = INV s"
  by (simp add: refillTokens_def Let_def)

lemma INV_tryAcquire [simp]: "INV (snd (tryAcquire now s)) = INV s"
  by (simp add: tryAcquire_def Let_def)

lemma INV_drop_timer: "INV s \<Longrightarrow> INV (s\<lparr> timers := (timers s)(h := None) \<rparr>)"
  by (simp add: INV_def)

lemma INV_add_process_timer: "INV s \<Longrightarrow> INV (s\<lparr> timers := (timers s)(h := Some (ProcessQueue, d)) \<rparr>)"
  by (simp add: INV_def)

lemma INV_scheduleProcess: "INV s \<Longrightarrow> INV (scheduleProcess now s)"
  using INV_add_process_timer [of "refillTokens now s" "nextTimer s"]
  apply (simp add: scheduleProcess_def Let_def setTimeout_def)
  apply (simp add: INV_def refillTokens_def Let_def)
  done

lemma remove_fields:
  fixes s :: world and w v q' rs'
  assumes "promise s w = Pending"
  defines "s' \<equiv> settle w v
           (clearEntryTimer w (s\<lparr> queue := q', removals := rs' \<rparr>))"
  shows "queue s' = q'" and "removals s' = rs'" and "nextEntry s' = nextEntry s"
    and "promise s' = (promise s)(w := v)"
    and "entryTimer s' = (entryTimer s)(w := None)"
    and "timers s' = (case entryTimer s w of None \<Rightarrow> timers s | Some h \<Rightarrow> (timers s)(h := None))"
  using assms(1) unfolding s'_def
  by (auto simp: settle_def clearEntryTimer_def clearTimeout_def split: option.splits)

lemma INV_remove:
  assumes inv: "INV s" and w: "w \<in> set (queue s)"
  shows "INV (settle w (outcome r)
           (clearEntryTimer w (s\<lparr> queue := remove1 w (queue s), removals := removals s @ [(w, r)] \<rparr>)))"
    (is "INV ?s'")
proof -
  from inv have dq: "distinct (queue s)" and dr: "distinct (map fst (removals s))"
    and q: "\<And>u. u \<in> set (queue s) \<Longrightarrow>
              u < nextEntry s \<and> promise s u = Pending \<and> u \<notin> fst ` set (removals s)"
    and t: "\<And>h u d. timers s h = Some (WaiterTimeout u, d) \<Longrightarrow>
              u \<in> set (queue s) \<and> entryTimer s u = Some h"
    and rm: "\<And>u x. (u, x) \<in> set (removals s) \<Longrightarrow> u < nextEntry s \<and> promise s u = outcome x"
    unfolding INV_def by blast+
  from q [OF w] have pend: "promise s w = Pending" and fresh: "w \<notin> fst ` set (removals s)"
    and lt: "w < nextEntry s"
    by simp_all
  note f = remove_fields [OF pend, where v = "outcome r" and q' = "remove1 w (queue s)"
      and rs' = "removals s @ [(w, r)]"]
  have 1: "distinct (queue ?s')" using dq by (simp add: f(1))
  have 2: "distinct (map fst (removals ?s'))" using dr fresh by (simp add: f(2))
  have 3: "\<forall>u\<in>set (queue ?s'). u < nextEntry ?s' \<and> promise ?s' u = Pending
             \<and> u \<notin> fst ` set (removals ?s')"
  proof
    fix u assume "u \<in> set (queue ?s')"
    then have u: "u \<in> set (queue s)" "u \<noteq> w" using dq by (simp_all add: f(1))
    from q [OF u(1)] u(2) show "u < nextEntry ?s' \<and> promise ?s' u = Pending
             \<and> u \<notin> fst ` set (removals ?s')"
      by (simp add: f(2,3,4))
  qed
  have 4: "\<forall>h u d. timers ?s' h = Some (WaiterTimeout u, d)
             \<longrightarrow> u \<in> set (queue ?s') \<and> entryTimer ?s' u = Some h"
  proof (intro allI impI)
    fix h u d
    assume a: "timers ?s' h = Some (WaiterTimeout u, d)"
    then have b: "timers s h = Some (WaiterTimeout u, d)"
      unfolding f(6) by (auto split: option.splits if_splits)
    from t [OF b] have c: "u \<in> set (queue s)" "entryTimer s u = Some h" by simp_all
    have "u \<noteq> w"
    proof
      assume "u = w"
      with c have "entryTimer s w = Some h" by simp
      with a show False unfolding f(6) by simp
    qed
    with c dq show "u \<in> set (queue ?s') \<and> entryTimer ?s' u = Some h"
      by (simp add: f(1,5))
  qed
  have 5: "\<forall>(u, x)\<in>set (removals ?s'). u < nextEntry ?s' \<and> promise ?s' u = outcome x"
  proof (clarify)
    fix u x assume "(u, x) \<in> set (removals ?s')"
    then consider "(u, x) \<in> set (removals s)" | "u = w" "x = r" by (auto simp: f(2))
    then show "u < nextEntry ?s' \<and> promise ?s' u = outcome x"
    proof cases
      case 1
      then have "u \<noteq> w" using fresh by force
      with rm [OF 1] show ?thesis by (simp add: f(3,4))
    next
      case 2
      then show ?thesis using lt by (simp add: f(3,4))
    qed
  qed
  show ?thesis unfolding INV_def using 1 2 3 4 5 by blast
qed

lemma clearEntryTimer_twice [simp]: "clearEntryTimer w (clearEntryTimer w s) = clearEntryTimer w s"
  by (simp add: clearEntryTimer_def clearTimeout_def split: option.splits)

lemma INV_grant:
  assumes "INV s" and "queue s = nxt # rest"
  shows "INV (entryResolve nxt (clearEntryTimer nxt
           (s\<lparr> queue := rest, tokens := x, removals := removals s @ [(nxt, Granted)] \<rparr>)))"
proof -
  let ?A = "(s\<lparr> tokens := x \<rparr>)\<lparr> queue := remove1 nxt (queue (s\<lparr> tokens := x \<rparr>)),
              removals := removals (s\<lparr> tokens := x \<rparr>) @ [(nxt, Granted)] \<rparr>"
  have eq: "s\<lparr> queue := rest, tokens := x, removals := removals s @ [(nxt, Granted)] \<rparr> = ?A"
    using assms(2) by (cases s) simp
  have "INV (s\<lparr> tokens := x \<rparr>)" "nxt \<in> set (queue (s\<lparr> tokens := x \<rparr>))"
    using assms by simp_all
  from INV_remove [OF this, of Granted]
  have "INV (settle nxt Resolved (clearEntryTimer nxt ?A))" by simp
  then show ?thesis
    by (simp only: eq entryResolve_def clearEntryTimer_twice)
qed

lemma INV_drainQueue: "INV s \<Longrightarrow> INV (drainQueue s)"
proof (induction s rule: drainQueue.induct)
  case (1 s)
  show ?case
  proof (cases "queue s")
    case Nil
    with 1 show ?thesis by (simp add: drainQueue.simps [of s])
  next
    case (Cons nxt rest)
    show ?thesis
    proof (cases "tokens s \<ge> 1")
      case False
      with Cons 1 show ?thesis by (simp add: drainQueue.simps [of s])
    next
      case True
      from "1.IH" [OF Cons True INV_grant [OF "1.prems" Cons]] Cons True
      show ?thesis by (simp add: drainQueue.simps [of s])
    qed
  qed
qed

lemma INV_reject:
  assumes "INV s" and "queue s = e # rest"
  shows "INV (entryReject e (Error ''RateLimiter: shutdown'') (clearEntryTimer e
           (s\<lparr> queue := rest, removals := removals s @ [(e, ShutDown)] \<rparr>)))"
proof -
  have "e \<in> set (queue s)" using assms by simp
  from INV_remove [OF assms(1) this, of ShutDown] show ?thesis
    using assms(2) by (simp add: entryReject_def)
qed

lemma INV_rejectAll: "INV s \<Longrightarrow> INV (rejectAll s)"
proof (induction s rule: rejectAll.induct)
  case (1 s)
  show ?case
  proof (cases "queue s")
    case Nil
    with 1 show ?thesis by (simp add: rejectAll.simps [of s])
  next
    case (Cons e rest)
    from "1.IH" [OF Cons INV_reject [OF "1.prems" Cons]] Cons
    show ?thesis by (simp add: rejectAll.simps [of s])
  qed
qed

lemma INV_shutdown: "INV s \<Longrightarrow> INV (shutdown s)"
  using INV_drop_timer [of s]
  by (auto simp: shutdown_def clearTimeout_def split: option.splits intro!: INV_rejectAll)

lemma INV_processQueue: "INV s \<Longrightarrow> INV (processQueue now1 now2 s)"
  by (simp add: processQueue_def Let_def INV_scheduleProcess INV_drainQueue)

lemma INV_waiterTimeout:
  assumes "INV s" and "w \<in> set (queue s)"
  shows "INV (waiterTimeout w s)"
  using INV_remove [OF assms, of TimedOut] assms(2)
  by (simp add: waiterTimeout_def entryReject_def)

lemma INV_fire: "INV s \<Longrightarrow> INV (fire h now1 now2 s)"
proof -
  assume inv: "INV s"
  show ?thesis
  proof (cases "timers s h")
    case None
    then show ?thesis using inv by (simp add: fire_def)
  next
    case (Some p)
    obtain cb d where p: "p = (cb, d)" by (cases p)
    let ?s1 = "s\<lparr> timers := (timers s)(h := None) \<rparr>"
    have inv1: "INV ?s1" by (rule INV_drop_timer [OF inv])
    show ?thesis
    proof (cases cb)
      case ProcessQueue
      then show ?thesis using Some p INV_processQueue [OF inv1] by (simp add: fire_def)
    next
      case (WaiterTimeout w)
      with Some p inv have "w \<in> set (queue s)" by (auto simp: INV_def)
      then have "w \<in> set (queue ?s1)" by simp
      from INV_waiterTimeout [OF inv1 this] show ?thesis
        using Some p WaiterTimeout by (simp add: fire_def)
    qed
  qed
qed

lemma acquire_unfold:
  "acquire now1 now2 t s =
     (if fst (tryAcquire now1 s) then (None, snd (tryAcquire now1 s))
      else (Some (nextEntry s),
            if timer s = None then scheduleProcess now2 (enqueued t (snd (tryAcquire now1 s)))
            else enqueued t (snd (tryAcquire now1 s))))"
proof -
  obtain ok s1 where ta: "tryAcquire now1 s = (ok, s1)" by fastforce
  have f: "nextEntry s1 = nextEntry s" "timer s1 = timer s"
    using tryAcquire_frame [of now1 s] ta by simp_all
  show ?thesis
    by (cases t) (simp_all add: acquire_def ta f enqueued_def Let_def setTimeout_def)
qed

lemma enqueued_fields:
  "queue (enqueued t s) = queue s @ [nextEntry s]"
  "removals (enqueued t s) = removals s"
  "nextEntry (enqueued t s) = Suc (nextEntry s)"
  "promise (enqueued t s) = (promise s)(nextEntry s := Pending)"
  "timer (enqueued t s) = timer s"
  "bucket (enqueued t s) = bucket s"
  "timers (enqueued t s) =
     (if attached t then (timers s)(nextTimer s := Some (WaiterTimeout (nextEntry s), the t))
      else timers s)"
  "entryTimer (enqueued t s) =
     (entryTimer s)(nextEntry s := (if attached t then Some (nextTimer s) else None))"
  by (cases t; simp add: enqueued_def Let_def setTimeout_def attached_def bucket_def)+

lemma INV_enqueued:
  assumes inv: "INV s"
  shows "INV (enqueued t s)" (is "INV ?s'")
proof -
  from inv have dq: "distinct (queue s)" and dr: "distinct (map fst (removals s))"
    and q: "\<And>u. u \<in> set (queue s) \<Longrightarrow>
              u < nextEntry s \<and> promise s u = Pending \<and> u \<notin> fst ` set (removals s)"
    and tm: "\<And>h u d. timers s h = Some (WaiterTimeout u, d) \<Longrightarrow>
              u \<in> set (queue s) \<and> entryTimer s u = Some h"
    and rm: "\<And>u x. (u, x) \<in> set (removals s) \<Longrightarrow> u < nextEntry s \<and> promise s u = outcome x"
    unfolding INV_def by blast+
  note f = enqueued_fields [of t s]
  have nq: "nextEntry s \<notin> set (queue s)" using q by blast
  have nr: "nextEntry s \<notin> fst ` set (removals s)" using rm by force
  have 1: "distinct (queue ?s')" using dq nq by (simp add: f(1))
  have 2: "distinct (map fst (removals ?s'))" using dr by (simp add: f(2))
  have 3: "\<forall>u\<in>set (queue ?s'). u < nextEntry ?s' \<and> promise ?s' u = Pending
             \<and> u \<notin> fst ` set (removals ?s')"
  proof
    fix u assume "u \<in> set (queue ?s')"
    then consider "u \<in> set (queue s)" | "u = nextEntry s" by (auto simp: f(1))
    then show "u < nextEntry ?s' \<and> promise ?s' u = Pending \<and> u \<notin> fst ` set (removals ?s')"
    proof cases
      case 1
      from q [OF 1] show ?thesis by (simp add: f(2,3,4))
    next
      case 2
      then show ?thesis using nr by (simp add: f(2,3,4))
    qed
  qed
  have 4: "\<forall>h u d. timers ?s' h = Some (WaiterTimeout u, d)
             \<longrightarrow> u \<in> set (queue ?s') \<and> entryTimer ?s' u = Some h"
  proof (intro allI impI)
    fix h u d
    assume a: "timers ?s' h = Some (WaiterTimeout u, d)"
    then consider "timers s h = Some (WaiterTimeout u, d)" "\<not> (attached t \<and> h = nextTimer s)"
      | "attached t" "h = nextTimer s" "u = nextEntry s"
      unfolding f(7) by (auto split: if_splits)
    then show "u \<in> set (queue ?s') \<and> entryTimer ?s' u = Some h"
    proof cases
      case 1
      from tm [OF 1(1)] have c: "u \<in> set (queue s)" "entryTimer s u = Some h" by simp_all
      with nq have "u \<noteq> nextEntry s" by blast
      with c show ?thesis by (simp add: f(1,8))
    next
      case 2
      then show ?thesis by (simp add: f(1,8))
    qed
  qed
  have 5: "\<forall>(u, x)\<in>set (removals ?s'). u < nextEntry ?s' \<and> promise ?s' u = outcome x"
  proof (clarify)
    fix u x assume "(u, x) \<in> set (removals ?s')"
    then have m: "(u, x) \<in> set (removals s)" by (simp add: f(2))
    then have "u \<noteq> nextEntry s" using nr by force
    with rm [OF m] show "u < nextEntry ?s' \<and> promise ?s' u = outcome x"
      by (simp add: f(3,4))
  qed
  show ?thesis unfolding INV_def using 1 2 3 4 5 by blast
qed

lemma INV_acquire: "INV s \<Longrightarrow> INV (snd (acquire now1 now2 t s))"
  by (simp add: acquire_unfold INV_enqueued INV_scheduleProcess)

lemma INV_step: "INV s \<Longrightarrow> INV (step e s)"
  by (cases e) (simp_all add: INV_acquire INV_fire INV_shutdown)

lemma INV_run: "INV s \<Longrightarrow> INV (run es s)"
  by (induction es arbitrary: s) (simp_all add: INV_step)

lemma INV_new: "newRateLimiter r c sf t0 = Inr s0 \<Longrightarrow> INV s0"
  by (auto simp: newRateLimiter_def INV_def split: if_splits)

subsection \<open>Waiters without a timeout\<close>

lemma untimed_bucket_upd [simp]:
  "untimed w (s\<lparr> tokens := x \<rparr>) = untimed w s"
  "untimed w (s\<lparr> lastRefill := y \<rparr>) = untimed w s"
  "untimed w (s\<lparr> timer := z \<rparr>) = untimed w s"
  by (simp_all add: untimed_def)

lemma untimed_refillTokens [simp]: "untimed w (refillTokens now s) = untimed w s"
  by (simp add: refillTokens_def Let_def)

lemma untimed_tryAcquire [simp]: "untimed w (snd (tryAcquire now s)) = untimed w s"
  by (simp add: tryAcquire_def Let_def)

lemma untimed_drop_timer: "untimed w s \<Longrightarrow> untimed w (s\<lparr> timers := (timers s)(h := None) \<rparr>)"
  by (simp add: untimed_def)

lemma untimed_scheduleProcess: "untimed w s \<Longrightarrow> untimed w (scheduleProcess now s)"
  by (simp add: scheduleProcess_def Let_def setTimeout_def)
     (simp add: untimed_def refillTokens_def Let_def)

lemma leave_fields:
  fixes s :: world and u v q' rs'
  defines "s' \<equiv> settle u v (clearEntryTimer u (s\<lparr> queue := q', removals := rs' \<rparr>))"
  shows "queue s' = q'" and "removals s' = rs'" and "nextEntry s' = nextEntry s"
    and "timers s' h = Some x \<Longrightarrow> timers s h = Some x"
  unfolding s'_def
  by (auto simp: settle_def clearEntryTimer_def clearTimeout_def split: option.splits if_splits)

lemma untimed_leave:
  assumes "untimed w s" and "set (queue s) \<subseteq> insert u (set q')" and "u = w \<longrightarrow> r \<noteq> TimedOut"
  shows "untimed w (settle u v
           (clearEntryTimer u (s\<lparr> queue := q', removals := removals s @ [(u, r)] \<rparr>)))"
    (is "untimed w ?s'")
proof -
  note f = leave_fields [where s = s and u = u and v = v and q' = q'
      and rs' = "removals s @ [(u, r)]"]
  from assms(1) have a: "w < nextEntry s" "\<And>h d. timers s h \<noteq> Some (WaiterTimeout w, d)"
    "(w, TimedOut) \<notin> set (removals s)"
    "w \<in> set (queue s) \<or> (w, Granted) \<in> set (removals s) \<or> (w, ShutDown) \<in> set (removals s)"
    unfolding untimed_def by blast+
  have 1: "w < nextEntry ?s'" using a(1) by (simp add: f(3))
  have 2: "\<forall>h d. timers ?s' h \<noteq> Some (WaiterTimeout w, d)" using a(2) f(4) by blast
  have 3: "(w, TimedOut) \<notin> set (removals ?s')" using a(3) assms(3) by (auto simp: f(2))
  have 4: "w \<in> set (queue ?s') \<or> (w, Granted) \<in> set (removals ?s')
             \<or> (w, ShutDown) \<in> set (removals ?s')"
  proof (cases "u = w")
    case True
    with assms(3) have "r = Granted \<or> r = ShutDown" by (cases r) auto
    with True show ?thesis unfolding f(1,2) by auto
  next
    case False
    with a(4) assms(2) show ?thesis by (auto simp: f(1,2))
  qed
  show ?thesis unfolding untimed_def using 1 2 3 4 by blast
qed

lemma untimed_drainQueue: "untimed w s \<Longrightarrow> untimed w (drainQueue s)"
proof (induction s rule: drainQueue.induct)
  case (1 s)
  show ?case
  proof (cases "queue s")
    case Nil
    with 1 show ?thesis by (simp add: drainQueue.simps [of s])
  next
    case (Cons nxt rest)
    show ?thesis
    proof (cases "tokens s \<ge> 1")
      case False
      with Cons 1 show ?thesis by (simp add: drainQueue.simps [of s])
    next
      case True
      let ?A = "(s\<lparr> tokens := tokens s - 1 \<rparr>)\<lparr> queue := rest,
              removals := removals (s\<lparr> tokens := tokens s - 1 \<rparr>) @ [(nxt, Granted)] \<rparr>"
      have eq: "s\<lparr> queue := rest, tokens := tokens s - 1,
                  removals := removals s @ [(nxt, Granted)] \<rparr> = ?A"
        by (cases s) simp
      have "untimed w (s\<lparr> tokens := tokens s - 1 \<rparr>)" using "1.prems" by simp
      from untimed_leave [OF this, of nxt rest Granted Resolved]
      have "untimed w (settle nxt Resolved (clearEntryTimer nxt ?A))"
        using Cons by auto
      then have "untimed w (entryResolve nxt (clearEntryTimer nxt
           (s\<lparr> queue := rest, tokens := tokens s - 1,
               removals := removals s @ [(nxt, Granted)] \<rparr>)))"
        by (simp only: eq entryResolve_def clearEntryTimer_twice)
      from "1.IH" [OF Cons True this] Cons True
      show ?thesis by (simp add: drainQueue.simps [of s])
    qed
  qed
qed

lemma untimed_rejectAll: "untimed w s \<Longrightarrow> untimed w (rejectAll s)"
proof (induction s rule: rejectAll.induct)
  case (1 s)
  show ?case
  proof (cases "queue s")
    case Nil
    with 1 show ?thesis by (simp add: rejectAll.simps [of s])
  next
    case (Cons e rest)
    from untimed_leave [OF "1.prems", of e rest ShutDown "Rejected (Error ''RateLimiter: shutdown'')"]
    have "untimed w (entryReject e (Error ''RateLimiter: shutdown'') (clearEntryTimer e
           (s\<lparr> queue := rest, removals := removals s @ [(e, ShutDown)] \<rparr>)))"
      using Cons by (auto simp: entryReject_def)
    from "1.IH" [OF Cons this] Cons
    show ?thesis by (simp add: rejectAll.simps [of s])
  qed
qed

lemma untimed_shutdown: "untimed w s \<Longrightarrow> untimed w (shutdown s)"
  using untimed_drop_timer [of w s]
  by (auto simp: shutdown_def clearTimeout_def split: option.splits intro!: untimed_rejectAll)

lemma untimed_processQueue: "untimed w s \<Longrightarrow> untimed w (processQueue now1 now2 s)"
  by (simp add: processQueue_def Let_def untimed_scheduleProcess untimed_drainQueue)

lemma untimed_waiterTimeout:
  assumes "untimed w s" and "u \<noteq> w"
  shows "untimed w (waiterTimeout u s)"
proof (cases "u \<in> set (queue s)")
  case True
  have "set (queue s) \<subseteq> insert u (set (remove1 u (queue s)))"
  proof
    fix x assume "x \<in> set (queue s)"
    then show "x \<in> insert u (set (remove1 u (queue s)))"
      by (cases "x = u") simp_all
  qed
  from untimed_leave [OF assms(1) this, of TimedOut
      "Rejected (Error ''RateLimiter: acquire timeout'')"] assms(2) True
  show ?thesis by (simp add: waiterTimeout_def entryReject_def)
next
  case False
  have "untimed w (settle u (Rejected (Error ''RateLimiter: acquire timeout'')) (clearEntryTimer u s))"
    using assms(1)
    by (auto simp: untimed_def settle_def clearEntryTimer_def clearTimeout_def split: option.splits)
  then show ?thesis using False by (simp add: waiterTimeout_def entryReject_def)
qed

lemma untimed_fire: "untimed w s \<Longrightarrow> untimed w (fire h now1 now2 s)"
proof -
  assume u: "untimed w s"
  show ?thesis
  proof (cases "timers s h")
    case None
    then show ?thesis using u by (simp add: fire_def)
  next
    case (Some p)
    obtain cb d where p: "p = (cb, d)" by (cases p)
    let ?s1 = "s\<lparr> timers := (timers s)(h := None) \<rparr>"
    have u1: "untimed w ?s1" by (rule untimed_drop_timer [OF u])
    show ?thesis
    proof (cases cb)
      case ProcessQueue
      then show ?thesis using Some p untimed_processQueue [OF u1] by (simp add: fire_def)
    next
      case (WaiterTimeout x)
      with Some p u have "x \<noteq> w" by (auto simp: untimed_def)
      from untimed_waiterTimeout [OF u1 this] show ?thesis
        using Some p WaiterTimeout by (simp add: fire_def)
    qed
  qed
qed

lemma untimed_enqueued: "untimed w s \<Longrightarrow> untimed w (enqueued t s)"
  unfolding untimed_def enqueued_fields by auto

lemma untimed_acquire: "untimed w s \<Longrightarrow> untimed w (snd (acquire now1 now2 t s))"
  by (simp add: acquire_unfold untimed_enqueued untimed_scheduleProcess)

lemma untimed_step: "untimed w s \<Longrightarrow> untimed w (step e s)"
  by (cases e) (simp_all add: untimed_acquire untimed_fire untimed_shutdown)

lemma untimed_run: "untimed w s \<Longrightarrow> untimed w (run es s)"
  by (induction es arbitrary: s) (simp_all add: untimed_step)

subsection \<open>Removal happens once\<close>

lemma tryAcquire_other [simp]:
  "removals (snd (tryAcquire now s)) = removals s"
  "timers (snd (tryAcquire now s)) = timers s"
  "promise (snd (tryAcquire now s)) = promise s"
  "entryTimer (snd (tryAcquire now s)) = entryTimer s"
  by (simp_all add: tryAcquire_def refillTokens_def Let_def)

lemma scheduleProcess_other [simp]:
  "removals (scheduleProcess now s) = removals s"
  "entryTimer (scheduleProcess now s) = entryTimer s"
  by (simp_all add: scheduleProcess_def refillTokens_def setTimeout_def Let_def)

lemma fire_timeout:
  assumes inv: "INV s" and t: "timers s h = Some (WaiterTimeout w, d)"
  shows "removals (fire h now1 now2 s) = removals s @ [(w, TimedOut)]"
    and "w \<notin> set (queue (fire h now1 now2 s))"
    and "promise (fire h now1 now2 s) w = Rejected (Error ''RateLimiter: acquire timeout'')"
proof -
  from inv t have w: "w \<in> set (queue s)" and dq: "distinct (queue s)"
    by (auto simp: INV_def)
  with inv have pend: "promise s w = Pending" by (auto simp: INV_def)
  let ?s1 = "s\<lparr> timers := (timers s)(h := None) \<rparr>"
  have pend1: "promise ?s1 w = Pending" using pend by simp
  have eq: "fire h now1 now2 s =
      settle w (Rejected (Error ''RateLimiter: acquire timeout''))
        (clearEntryTimer w (?s1\<lparr> queue := remove1 w (queue s),
                                 removals := removals s @ [(w, TimedOut)] \<rparr>))"
    using t w by (simp add: fire_def waiterTimeout_def entryReject_def)
  note f = remove_fields [OF pend1, where v = "Rejected (Error ''RateLimiter: acquire timeout'')"
      and q' = "remove1 w (queue s)" and rs' = "removals s @ [(w, TimedOut)]"]
  show "removals (fire h now1 now2 s) = removals s @ [(w, TimedOut)]"
    unfolding eq by (rule f(2))
  show "w \<notin> set (queue (fire h now1 now2 s))"
    unfolding eq f(1) using dq by simp
  show "promise (fire h now1 now2 s) w = Rejected (Error ''RateLimiter: acquire timeout'')"
    unfolding eq f(4) by simp
qed

lemma removals_frame [simp]:
  "removals (settle w v s) = removals s"
  "removals (clearEntryTimer w s) = removals s"
  "removals (entryResolve w s) = removals s"
  "removals (entryReject w e s) = removals s"
  by (simp_all add: settle_def clearEntryTimer_def clearTimeout_def entryResolve_def
      entryReject_def split: option.splits)

lemma removals_grow_drainQueue: "set (removals s) \<subseteq> set (removals (drainQueue s))"
proof (induction s rule: drainQueue.induct)
  case (1 s)
  show ?case
  proof (cases "queue s")
    case Nil
    then show ?thesis by (simp add: drainQueue.simps [of s])
  next
    case (Cons nxt rest)
    show ?thesis
    proof (cases "tokens s \<ge> 1")
      case False
      with Cons show ?thesis by (simp add: drainQueue.simps [of s])
    next
      case True
      let ?s' = "entryResolve nxt (clearEntryTimer nxt
           (s\<lparr> queue := rest, tokens := tokens s - 1,
               removals := removals s @ [(nxt, Granted)] \<rparr>))"
      have "removals ?s' = removals s @ [(nxt, Granted)]"
        by simp
      with "1.IH" [OF Cons True] have "set (removals s) \<subseteq> set (removals (drainQueue ?s'))"
        by auto
      then show ?thesis using Cons True by (simp add: drainQueue.simps [of s])
    qed
  qed
qed

lemma drainQueue_grants_head:
  assumes "queue s = w # rest" and "tokens s \<ge> 1"
  shows "(w, Granted) \<in> set (removals (drainQueue s))"
proof -
  let ?s' = "entryResolve w (clearEntryTimer w
           (s\<lparr> queue := rest, tokens := tokens s - 1,
               removals := removals s @ [(w, Granted)] \<rparr>))"
  have "removals ?s' = removals s @ [(w, Granted)]"
    by simp
  then have "(w, Granted) \<in> set (removals ?s')" by simp
  with removals_grow_drainQueue [of ?s'] have "(w, Granted) \<in> set (removals (drainQueue ?s'))"
    by blast
  then show ?thesis using assms by (simp add: drainQueue.simps [of s])
qed

subsection \<open>The timer invariant\<close>

lemma TINV_bucket_upd [simp]:
  "TINV (s\<lparr> tokens := x \<rparr>) = TINV s"
  "TINV (s\<lparr> lastRefill := y \<rparr>) = TINV s"
  "TINV (s\<lparr> queue := q \<rparr>) = TINV s"
  "TINV (s\<lparr> removals := rs \<rparr>) = TINV s"
  "TINV (s\<lparr> promise := p \<rparr>) = TINV s"
  "TINV (s\<lparr> nextEntry := n \<rparr>) = TINV s"
  by (simp_all add: TINV_def)

lemma TINV_refillTokens [simp]: "TINV (refillTokens now s) = TINV s"
  by (simp add: refillTokens_def Let_def)

lemma TINV_tryAcquire [simp]: "TINV (snd (tryAcquire now s)) = TINV s"
  by (simp add: tryAcquire_def Let_def)

lemma TINV_settle [simp]: "TINV (settle w v s) = TINV s"
  by (simp add: settle_def)

lemma TINV_clearEntryTimer: "TINV s \<Longrightarrow> TINV (clearEntryTimer w s)"
proof (cases "entryTimer s w")
  case None
  then show "TINV s \<Longrightarrow> TINV (clearEntryTimer w s)" by (simp add: clearEntryTimer_def)
next
  case (Some h)
  assume t: "TINV s"
  then have a: "\<And>u k. entryTimer s u = Some k \<Longrightarrow> \<exists>d. timers s k = Some (WaiterTimeout u, d)"
    and b: "\<And>k. timer s = Some k \<Longrightarrow> \<exists>d. timers s k = Some (ProcessQueue, d)"
    and c: "\<And>k x. timers s k = Some x \<Longrightarrow> k < nextTimer s"
    unfolding TINV_def by blast+
  let ?s' = "clearEntryTimer w s"
  have f: "entryTimer ?s' = (entryTimer s)(w := None)" "timers ?s' = (timers s)(h := None)"
    "timer ?s' = timer s" "nextTimer ?s' = nextTimer s"
    using Some by (simp_all add: clearEntryTimer_def clearTimeout_def)
  from a [OF Some] obtain d0 where h: "timers s h = Some (WaiterTimeout w, d0)" by blast
  have 1: "\<forall>u k. entryTimer ?s' u = Some k \<longrightarrow> (\<exists>d. timers ?s' k = Some (WaiterTimeout u, d))"
  proof (intro allI impI)
    fix u k assume "entryTimer ?s' u = Some k"
    then have u: "u \<noteq> w" "entryTimer s u = Some k" unfolding f by (auto split: if_splits)
    from a [OF u(2)] obtain d where d: "timers s k = Some (WaiterTimeout u, d)" by blast
    with h u(1) have "k \<noteq> h" by auto
    with d show "\<exists>d. timers ?s' k = Some (WaiterTimeout u, d)" unfolding f by simp
  qed
  have 2: "\<forall>k. timer ?s' = Some k \<longrightarrow> (\<exists>d. timers ?s' k = Some (ProcessQueue, d))"
  proof (intro allI impI)
    fix k assume "timer ?s' = Some k"
    then have "timer s = Some k" unfolding f .
    from b [OF this] obtain d where d: "timers s k = Some (ProcessQueue, d)" by blast
    with h have "k \<noteq> h" by auto
    with d show "\<exists>d. timers ?s' k = Some (ProcessQueue, d)" unfolding f by simp
  qed
  have 3: "\<forall>k x. timers ?s' k = Some x \<longrightarrow> k < nextTimer ?s'"
    using c unfolding f by (auto split: if_splits)
  show "TINV ?s'" unfolding TINV_def using 1 2 3 by blast
qed

lemma scheduleProcess_timers:
  "\<exists>d. timers (scheduleProcess now s) = (timers s)(nextTimer s := Some (ProcessQueue, d))"
  "nextTimer (scheduleProcess now s) = Suc (nextTimer s)"
  by (auto simp add: scheduleProcess_def Let_def setTimeout_def refillTokens_def)

lemma TINV_scheduleProcess:
  assumes t: "TINV s"
  shows "TINV (scheduleProcess now s)" (is "TINV ?s'")
proof -
  from t have a: "\<And>u k. entryTimer s u = Some k \<Longrightarrow> \<exists>d. timers s k = Some (WaiterTimeout u, d)"
    and c: "\<And>k x. timers s k = Some x \<Longrightarrow> k < nextTimer s"
    unfolding TINV_def by blast+
  obtain d0 where tm: "timers ?s' = (timers s)(nextTimer s := Some (ProcessQueue, d0))"
    using scheduleProcess_timers(1) by blast
  note f = tm scheduleProcess_timers(2) [of now s] scheduleProcess_frame(3) [of now s]
    scheduleProcess_other(2) [of now s]
  have 1: "\<forall>u k. entryTimer ?s' u = Some k \<longrightarrow> (\<exists>d. timers ?s' k = Some (WaiterTimeout u, d))"
  proof (intro allI impI)
    fix u k assume "entryTimer ?s' u = Some k"
    then have u: "entryTimer s u = Some k" unfolding f .
    from a [OF u] obtain d where d: "timers s k = Some (WaiterTimeout u, d)" by blast
    from c [OF d] have "k \<noteq> nextTimer s" by simp
    with d show "\<exists>d. timers ?s' k = Some (WaiterTimeout u, d)" unfolding f by simp
  qed
  have 2: "\<forall>k. timer ?s' = Some k \<longrightarrow> (\<exists>d. timers ?s' k = Some (ProcessQueue, d))"
    unfolding f by simp
  have 3: "\<forall>k x. timers ?s' k = Some x \<longrightarrow> k < nextTimer ?s'"
    using c unfolding f by (auto split: if_splits intro: less_SucI)
  show ?thesis unfolding TINV_def using 1 2 3 by blast
qed


lemma TINV_cong:
  assumes "entryTimer s' = entryTimer s" and "timers s' = timers s" and "timer s' = timer s"
    and "nextTimer s' = nextTimer s"
  shows "TINV s' = TINV s"
  by (simp add: TINV_def assms)

lemma TINV_entryResolve: "TINV s \<Longrightarrow> TINV (entryResolve w s)"
  by (simp add: entryResolve_def TINV_clearEntryTimer)

lemma TINV_entryReject: "TINV s \<Longrightarrow> TINV (entryReject w e s)"
  by (simp add: entryReject_def TINV_clearEntryTimer)

lemma TINV_drainQueue: "TINV s \<Longrightarrow> TINV (drainQueue s)"
proof (induction s rule: drainQueue.induct)
  case (1 s)
  show ?case
  proof (cases "queue s")
    case Nil
    with 1 show ?thesis by (simp add: drainQueue.simps [of s])
  next
    case (Cons nxt rest)
    show ?thesis
    proof (cases "tokens s \<ge> 1")
      case False
      with Cons 1 show ?thesis by (simp add: drainQueue.simps [of s])
    next
      case True
      have "TINV (entryResolve nxt (clearEntryTimer nxt
           (s\<lparr> queue := rest, tokens := tokens s - 1,
               removals := removals s @ [(nxt, Granted)] \<rparr>)))"
        using "1.prems" by (intro TINV_entryResolve TINV_clearEntryTimer) simp
      from "1.IH" [OF Cons True this] Cons True
      show ?thesis by (simp add: drainQueue.simps [of s])
    qed
  qed
qed

lemma TINV_rejectAll: "TINV s \<Longrightarrow> TINV (rejectAll s)"
proof (induction s rule: rejectAll.induct)
  case (1 s)
  show ?case
  proof (cases "queue s")
    case Nil
    with 1 show ?thesis by (simp add: rejectAll.simps [of s])
  next
    case (Cons e rest)
    have "TINV (entryReject e (Error ''RateLimiter: shutdown'') (clearEntryTimer e
           (s\<lparr> queue := rest, removals := removals s @ [(e, ShutDown)] \<rparr>)))"
      using "1.prems" by (intro TINV_entryReject TINV_clearEntryTimer) simp
    from "1.IH" [OF Cons this] Cons
    show ?thesis by (simp add: rejectAll.simps [of s])
  qed
qed

lemma TINV_drop_process:
  assumes t: "TINV s" and h: "timers s h = Some (ProcessQueue, d)"
  shows "TINV (s\<lparr> timers := (timers s)(h := None), timer := None \<rparr>)"
proof -
  from t have a: "\<And>u k. entryTimer s u = Some k \<Longrightarrow> \<exists>d. timers s k = Some (WaiterTimeout u, d)"
    and c: "\<And>k x. timers s k = Some x \<Longrightarrow> k < nextTimer s"
    unfolding TINV_def by blast+
  have 1: "\<forall>u k. entryTimer s u = Some k \<longrightarrow>
             (\<exists>d. ((timers s)(h := None)) k = Some (WaiterTimeout u, d))"
  proof (intro allI impI)
    fix u k assume "entryTimer s u = Some k"
    from a [OF this] obtain d' where d: "timers s k = Some (WaiterTimeout u, d')" by blast
    with h have "k \<noteq> h" by auto
    with d show "\<exists>d. ((timers s)(h := None)) k = Some (WaiterTimeout u, d)" by simp
  qed
  have 3: "\<forall>k x. ((timers s)(h := None)) k = Some x \<longrightarrow> k < nextTimer s"
    using c by (auto split: if_splits)
  show ?thesis unfolding TINV_def using 1 3 by simp
qed

lemma TINV_shutdown: "TINV s \<Longrightarrow> TINV (shutdown s)"
proof (cases "timer s")
  case None
  then show "TINV s \<Longrightarrow> TINV (shutdown s)" by (simp add: shutdown_def TINV_rejectAll)
next
  case (Some h)
  assume t: "TINV s"
  with Some obtain d where "timers s h = Some (ProcessQueue, d)" unfolding TINV_def by blast
  from TINV_drop_process [OF t this] show "TINV (shutdown s)"
    using Some by (simp add: shutdown_def clearTimeout_def TINV_rejectAll)
qed

lemma TINV_timer_None: "TINV s \<Longrightarrow> TINV (s\<lparr> timer := None \<rparr>)"
  by (simp add: TINV_def)

lemma TINV_processQueue: "TINV (s\<lparr> timer := None \<rparr>) \<Longrightarrow> TINV (processQueue now1 now2 s)"
  by (simp add: processQueue_def Let_def TINV_scheduleProcess TINV_drainQueue)

lemma TINV_fire:
  assumes t: "TINV s" and inv: "INV s"
  shows "TINV (fire h now1 now2 s)"
proof (cases "timers s h")
  case None
  then show ?thesis using t by (simp add: fire_def)
next
  case (Some p)
  obtain cb d where p: "p = (cb, d)" by (cases p)
  let ?s1 = "s\<lparr> timers := (timers s)(h := None) \<rparr>"
  show ?thesis
  proof (cases cb)
    case ProcessQueue
    from TINV_drop_process [OF t] Some p ProcessQueue
    have "TINV (?s1\<lparr> timer := None \<rparr>)" by simp
    from TINV_processQueue [OF this] show ?thesis
      using Some p ProcessQueue by (simp add: fire_def)
  next
    case (WaiterTimeout w)
    with Some p inv have w: "w \<in> set (queue s)" "entryTimer s w = Some h"
      by (auto simp: INV_def)
    have "TINV (waiterTimeout w ?s1) = TINV (clearEntryTimer w s)"
      by (rule TINV_cong)
         (simp_all add: waiterTimeout_def entryReject_def settle_def clearEntryTimer_def
            clearTimeout_def w Let_def)
    then show ?thesis
      using Some p WaiterTimeout TINV_clearEntryTimer [OF t, of w] by (simp add: fire_def)
  qed
qed

lemma enqueued_nextTimer:
  "nextTimer (enqueued t s) = (if attached t then Suc (nextTimer s) else nextTimer s)"
  by (cases t) (simp_all add: enqueued_def Let_def setTimeout_def attached_def)

lemma TINV_enqueued:
  assumes t: "TINV s"
  shows "TINV (enqueued tm s)" (is "TINV ?s'")
proof -
  from t have a: "\<And>u k. entryTimer s u = Some k \<Longrightarrow> \<exists>d. timers s k = Some (WaiterTimeout u, d)"
    and b: "\<And>k. timer s = Some k \<Longrightarrow> \<exists>d. timers s k = Some (ProcessQueue, d)"
    and c: "\<And>k x. timers s k = Some x \<Longrightarrow> k < nextTimer s"
    unfolding TINV_def by blast+
  note f = enqueued_fields(5,7,8) [of tm s] enqueued_nextTimer [of tm s]
  have fresh: "\<And>k x. timers s k = Some x \<Longrightarrow> k \<noteq> nextTimer s" using c by fastforce
  have 1: "\<forall>u k. entryTimer ?s' u = Some k \<longrightarrow> (\<exists>d. timers ?s' k = Some (WaiterTimeout u, d))"
  proof (intro allI impI)
    fix u k assume e: "entryTimer ?s' u = Some k"
    show "\<exists>d. timers ?s' k = Some (WaiterTimeout u, d)"
    proof (cases "u = nextEntry s")
      case True
      with e have "attached tm" "k = nextTimer s" unfolding f by (auto split: if_splits)
      with True show ?thesis unfolding f by simp
    next
      case False
      with e have "entryTimer s u = Some k" unfolding f by simp
      from a [OF this] obtain d where d: "timers s k = Some (WaiterTimeout u, d)" by blast
      with fresh [OF d] show ?thesis unfolding f by simp
    qed
  qed
  have 2: "\<forall>k. timer ?s' = Some k \<longrightarrow> (\<exists>d. timers ?s' k = Some (ProcessQueue, d))"
  proof (intro allI impI)
    fix k assume "timer ?s' = Some k"
    then have "timer s = Some k" unfolding f .
    from b [OF this] obtain d where d: "timers s k = Some (ProcessQueue, d)" by blast
    with fresh [OF d] show "\<exists>d. timers ?s' k = Some (ProcessQueue, d)" unfolding f by simp
  qed
  have 3: "\<forall>k x. timers ?s' k = Some x \<longrightarrow> k < nextTimer ?s'"
    using c unfolding f by (auto split: if_splits intro: less_SucI)
  show ?thesis unfolding TINV_def using 1 2 3 by blast
qed

lemma TINV_acquire: "TINV s \<Longrightarrow> TINV (snd (acquire now1 now2 t s))"
  by (simp add: acquire_unfold TINV_enqueued TINV_scheduleProcess)

lemma TINV_step: "TINV s \<Longrightarrow> INV s \<Longrightarrow> TINV (step e s)"
  by (cases e) (simp_all add: TINV_acquire TINV_fire TINV_shutdown)

lemma TINV_run: "TINV s \<Longrightarrow> INV s \<Longrightarrow> TINV (run es s)"
  by (induction es arbitrary: s) (simp_all add: TINV_step INV_step)

lemma TINV_new: "newRateLimiter r c sf t0 = Inr s0 \<Longrightarrow> TINV s0"
  by (auto simp: newRateLimiter_def TINV_def split: if_splits)


lemma acquire_with_timeout:
  assumes "0 < t" and "acquire now1 now2 (Some t) s = (Some w, s1)"
  shows "w \<in> set (queue s1) \<and>
         entryTimer s1 w = Some (nextTimer s) \<and>
         timers s1 (nextTimer s) = Some (WaiterTimeout w, t)"
proof -
  let ?s' = "snd (tryAcquire now1 s)"
  let ?e = "enqueued (Some t) ?s'"
  have nt: "nextTimer ?s' = nextTimer s" by (simp add: tryAcquire_def refillTokens_def Let_def)
  from assms(2) have w: "w = nextEntry s"
    and s1: "s1 = (if timer s = None then scheduleProcess now2 ?e else ?e)"
    by (auto simp: acquire_unfold split: if_splits)
  have at: "attached (Some t)" using assms(1) by (simp add: attached_def)
  have e: "w \<in> set (queue ?e)" "entryTimer ?e w = Some (nextTimer s)"
    "timers ?e (nextTimer s) = Some (WaiterTimeout w, t)" "nextTimer ?e = Suc (nextTimer s)"
    using at by (simp_all add: enqueued_fields enqueued_nextTimer w nt)
  obtain d where d: "timers (scheduleProcess now2 ?e) = (timers ?e)(nextTimer ?e := Some (ProcessQueue, d))"
    using scheduleProcess_timers(1) by blast
  have "timers (scheduleProcess now2 ?e) (nextTimer s) = Some (WaiterTimeout w, t)"
    unfolding d using e(3,4) by simp
  then show ?thesis unfolding s1 using e by simp
qed

subsection \<open>Waiters with a timeout\<close>

lemma timed_bucket_upd [simp]:
  "timed w h t (s\<lparr> tokens := x \<rparr>) = timed w h t s"
  "timed w h t (s\<lparr> lastRefill := y \<rparr>) = timed w h t s"
  "timed w h t (s\<lparr> timer := z \<rparr>) = timed w h t s"
  by (simp_all add: timed_def)

lemma timed_refillTokens [simp]: "timed w h t (refillTokens now s) = timed w h t s"
  by (simp add: refillTokens_def Let_def)

lemma timed_tryAcquire [simp]: "timed w h t (snd (tryAcquire now s)) = timed w h t s"
  by (simp add: tryAcquire_def Let_def)

lemma timed_drop_timer:
  assumes "timed w h t s" and "w \<in> set (queue s) \<longrightarrow> k \<noteq> h"
  shows "timed w h t (s\<lparr> timers := (timers s)(k := None) \<rparr>)"
  using assms by (auto simp: timed_def)

lemma timed_scheduleProcess:
  assumes "timed w h t s" and "TINV s"
  shows "timed w h t (scheduleProcess now s)" (is "timed w h t ?s'")
proof -
  obtain d0 where tm: "timers ?s' = (timers s)(nextTimer s := Some (ProcessQueue, d0))"
    using scheduleProcess_timers(1) by blast
  from assms(2) have c: "\<And>k x. timers s k = Some x \<Longrightarrow> k < nextTimer s"
    unfolding TINV_def by blast
  have "w \<in> set (queue s) \<Longrightarrow> h \<noteq> nextTimer s"
    using assms(1) c [of h] unfolding timed_def by fastforce
  then show ?thesis
    using assms(1) unfolding timed_def tm by simp
qed

lemma leave_stores:
  fixes s :: world and u v q' rs'
  defines "s' \<equiv> settle u v (clearEntryTimer u (s\<lparr> queue := q', removals := rs' \<rparr>))"
  shows "entryTimer s' = (entryTimer s)(u := None)"
    and "timers s' = (case entryTimer s u of None \<Rightarrow> timers s | Some k \<Rightarrow> (timers s)(k := None))"
  unfolding s'_def
  by (auto simp: settle_def clearEntryTimer_def clearTimeout_def split: option.splits)

lemma timed_leave:
  assumes tm: "timed w h t s" and d: "distinct (queue s)"
    and other: "\<And>k. entryTimer s u = Some k \<Longrightarrow> u \<noteq> w \<Longrightarrow> w \<in> set (queue s) \<Longrightarrow> k \<noteq> h"
  shows "timed w h t (settle u v
           (clearEntryTimer u (s\<lparr> queue := remove1 u (queue s),
                                   removals := removals s @ [(u, r)] \<rparr>)))"
    (is "timed w h t ?s'")
proof -
  note f = leave_fields(1,2,3) [where s = s and u = u and v = v and q' = "remove1 u (queue s)"
      and rs' = "removals s @ [(u, r)]"]
    leave_stores [where s = s and u = u and v = v and q' = "remove1 u (queue s)"
      and rs' = "removals s @ [(u, r)]"]
  from tm have a:
    "w \<in> set (queue s) \<Longrightarrow> entryTimer s w = Some h \<and> timers s h = Some (WaiterTimeout w, t)"
    "w \<notin> set (queue s) \<Longrightarrow> w \<in> fst ` set (removals s)"
    unfolding timed_def by blast+
  have 2: "w \<in> set (queue ?s') \<longrightarrow>
             entryTimer ?s' w = Some h \<and> timers ?s' h = Some (WaiterTimeout w, t)"
  proof
    assume "w \<in> set (queue ?s')"
    then have q: "w \<in> set (queue s)" "w \<noteq> u" using d by (simp_all add: f(1))
    from a(1) [OF q(1)] have e: "entryTimer s w = Some h" "timers s h = Some (WaiterTimeout w, t)"
      by simp_all
    have "timers ?s' h = Some (WaiterTimeout w, t)"
    proof (cases "entryTimer s u")
      case None
      then show ?thesis using e(2) by (simp add: f(5))
    next
      case (Some k)
      from other [OF Some] q have "k \<noteq> h" by blast
      then show ?thesis using e(2) Some by (simp add: f(5))
    qed
    then show "entryTimer ?s' w = Some h \<and> timers ?s' h = Some (WaiterTimeout w, t)"
      using e(1) q(2) by (simp add: f(4))
  qed
  have 3: "w \<notin> set (queue ?s') \<longrightarrow> w \<in> fst ` set (removals ?s')"
  proof
    assume n: "w \<notin> set (queue ?s')"
    show "w \<in> fst ` set (removals ?s')"
    proof (cases "w = u")
      case True
      then show ?thesis by (simp add: f(2))
    next
      case False
      with n have "w \<notin> set (queue s)" by (simp add: f(1))
      from a(2) [OF this] show ?thesis by (simp add: f(2))
    qed
  qed
  show ?thesis unfolding timed_def using 2 3 by blast
qed

lemma TINV_other:
  assumes "TINV s" and "timers s h = Some (WaiterTimeout w, t)" and "entryTimer s u = Some k"
    and "u \<noteq> w"
  shows "k \<noteq> h"
  using assms unfolding TINV_def by fastforce

lemma timed_other:
  assumes "timed w h t s" and "TINV s"
  shows "entryTimer s u = Some k \<Longrightarrow> u \<noteq> w \<Longrightarrow> w \<in> set (queue s) \<Longrightarrow> k \<noteq> h"
  using assms TINV_other [of s h w t u k] unfolding timed_def by blast


lemma timed_grant:
  assumes tm: "timed w h t s" and ti: "TINV s" and inv: "INV s" and q: "queue s = nxt # rest"
  shows "timed w h t (entryResolve nxt (clearEntryTimer nxt
           (s\<lparr> queue := rest, tokens := x, removals := removals s @ [(nxt, Granted)] \<rparr>)))"
proof -
  let ?s0 = "s\<lparr> tokens := x \<rparr>"
  let ?A = "?s0\<lparr> queue := remove1 nxt (queue ?s0), removals := removals ?s0 @ [(nxt, Granted)] \<rparr>"
  have eq: "s\<lparr> queue := rest, tokens := x, removals := removals s @ [(nxt, Granted)] \<rparr> = ?A"
    using q by (cases s) simp
  have a: "timed w h t ?s0" "TINV ?s0" using tm ti by simp_all
  have d: "distinct (queue ?s0)" using inv by (simp add: INV_def)
  have o: "\<And>k. entryTimer ?s0 nxt = Some k \<Longrightarrow> nxt \<noteq> w \<Longrightarrow> w \<in> set (queue ?s0) \<Longrightarrow> k \<noteq> h"
    by (rule timed_other [OF a])
  from timed_leave [where u = nxt and v = Resolved and r = Granted, OF a(1) d o]
  have "timed w h t (settle nxt Resolved (clearEntryTimer nxt ?A))" by blast
  then show ?thesis
    by (simp only: eq entryResolve_def clearEntryTimer_twice)
qed

lemma timed_drainQueue: "timed w h t s \<Longrightarrow> TINV s \<Longrightarrow> INV s \<Longrightarrow> timed w h t (drainQueue s)"
proof (induction s rule: drainQueue.induct)
  case (1 s)
  show ?case
  proof (cases "queue s")
    case Nil
    with 1 show ?thesis by (simp add: drainQueue.simps [of s])
  next
    case (Cons nxt rest)
    show ?thesis
    proof (cases "tokens s \<ge> 1")
      case False
      with Cons 1 show ?thesis by (simp add: drainQueue.simps [of s])
    next
      case True
      let ?s' = "entryResolve nxt (clearEntryTimer nxt
           (s\<lparr> queue := rest, tokens := tokens s - 1,
               removals := removals s @ [(nxt, Granted)] \<rparr>))"
      have a: "timed w h t ?s'" by (rule timed_grant [OF "1.prems" Cons])
      have b: "TINV ?s'"
        using "1.prems"(2) by (intro TINV_entryResolve TINV_clearEntryTimer) simp
      have c: "INV ?s'" by (rule INV_grant [OF "1.prems"(3) Cons])
      from "1.IH" [OF Cons True a b c] Cons True
      show ?thesis by (simp add: drainQueue.simps [of s])
    qed
  qed
qed

lemma timed_reject:
  assumes tm: "timed w h t s" and ti: "TINV s" and inv: "INV s" and q: "queue s = e # rest"
  shows "timed w h t (entryReject e (Error ''RateLimiter: shutdown'') (clearEntryTimer e
           (s\<lparr> queue := rest, removals := removals s @ [(e, ShutDown)] \<rparr>)))"
proof -
  have d: "distinct (queue s)" using inv by (simp add: INV_def)
  have o: "\<And>k. entryTimer s e = Some k \<Longrightarrow> e \<noteq> w \<Longrightarrow> w \<in> set (queue s) \<Longrightarrow> k \<noteq> h"
    by (rule timed_other [OF tm ti])
  from timed_leave [where u = e and v = "Rejected (Error ''RateLimiter: shutdown'')"
      and r = ShutDown, OF tm d o]
  show ?thesis using q by (simp add: entryReject_def)
qed

lemma timed_rejectAll: "timed w h t s \<Longrightarrow> TINV s \<Longrightarrow> INV s \<Longrightarrow> timed w h t (rejectAll s)"
proof (induction s rule: rejectAll.induct)
  case (1 s)
  show ?case
  proof (cases "queue s")
    case Nil
    with 1 show ?thesis by (simp add: rejectAll.simps [of s])
  next
    case (Cons e rest)
    let ?s' = "entryReject e (Error ''RateLimiter: shutdown'') (clearEntryTimer e
           (s\<lparr> queue := rest, removals := removals s @ [(e, ShutDown)] \<rparr>))"
    have a: "timed w h t ?s'" by (rule timed_reject [OF "1.prems" Cons])
    have b: "TINV ?s'"
      using "1.prems"(2) by (intro TINV_entryReject TINV_clearEntryTimer) simp
    have c: "INV ?s'" by (rule INV_reject [OF "1.prems"(3) Cons])
    from "1.IH" [OF Cons a b c] Cons
    show ?thesis by (simp add: rejectAll.simps [of s])
  qed
qed

lemma timed_drop_process:
  assumes tm: "timed w h t s" and k: "timers s k = Some (ProcessQueue, d)"
  shows "timed w h t (s\<lparr> timers := (timers s)(k := None), timer := None \<rparr>)"
proof -
  have "w \<in> set (queue s) \<longrightarrow> k \<noteq> h" using tm k by (auto simp: timed_def)
  from timed_drop_timer [OF tm this] show ?thesis by (simp add: timed_def)
qed

lemma timed_shutdown:
  assumes tm: "timed w h t s" and ti: "TINV s" and inv: "INV s"
  shows "timed w h t (shutdown s)"
proof (cases "timer s")
  case None
  then show ?thesis using timed_rejectAll [OF tm ti inv] by (simp add: shutdown_def)
next
  case (Some k)
  with ti obtain d where k: "timers s k = Some (ProcessQueue, d)" unfolding TINV_def by blast
  let ?s1 = "s\<lparr> timers := (timers s)(k := None), timer := None \<rparr>"
  have a: "timed w h t ?s1" by (rule timed_drop_process [OF tm k])
  have b: "TINV ?s1" by (rule TINV_drop_process [OF ti k])
  have c: "INV ?s1" using INV_drop_timer [OF inv, of k] by simp
  from timed_rejectAll [OF a b c] show ?thesis
    using Some by (simp add: shutdown_def clearTimeout_def)
qed

lemma timed_processQueue:
  assumes tm: "timed w h t s" and ti: "TINV (s\<lparr> timer := None \<rparr>)" and inv: "INV s"
  shows "timed w h t (processQueue now1 now2 s)"
proof -
  let ?s1 = "refillTokens now1 (s\<lparr> timer := None \<rparr>)"
  have a: "timed w h t ?s1" using tm by simp
  have b: "TINV ?s1" using ti by simp
  have c: "INV ?s1" using inv by simp
  have d: "timed w h t (drainQueue ?s1)" by (rule timed_drainQueue [OF a b c])
  have e: "TINV (drainQueue ?s1)" by (rule TINV_drainQueue [OF b])
  show ?thesis
    using d timed_scheduleProcess [OF d e] by (simp add: processQueue_def Let_def)
qed

lemma timed_fire:
  assumes tm: "timed w h t s" and ti: "TINV s" and inv: "INV s"
  shows "timed w h t (fire k now1 now2 s)"
proof (cases "timers s k")
  case None
  then show ?thesis using tm by (simp add: fire_def)
next
  case (Some p)
  obtain cb d where p: "p = (cb, d)" by (cases p)
  let ?s1 = "s\<lparr> timers := (timers s)(k := None) \<rparr>"
  have inv1: "INV ?s1" by (rule INV_drop_timer [OF inv])
  show ?thesis
  proof (cases cb)
    case ProcessQueue
    have k: "timers s k = Some (ProcessQueue, d)" using Some p ProcessQueue by simp
    have "w \<in> set (queue s) \<longrightarrow> k \<noteq> h" using tm k by (auto simp: timed_def)
    from timed_drop_timer [OF tm this] have a: "timed w h t ?s1" .
    from TINV_drop_process [OF ti k] have b: "TINV (?s1\<lparr> timer := None \<rparr>)" by simp
    from timed_processQueue [OF a b inv1] show ?thesis
      using Some p ProcessQueue by (simp add: fire_def)
  next
    case (WaiterTimeout u)
    have k: "timers s k = Some (WaiterTimeout u, d)" using Some p WaiterTimeout by simp
    with inv have u: "u \<in> set (queue s)" "entryTimer s u = Some k"
      by (auto simp: INV_def)
    show ?thesis
    proof (cases "u = w")
      case True
      from fire_timeout(1,2) [OF inv k, of now1 now2] True
      show ?thesis unfolding timed_def by simp
    next
      case False
      have dq: "distinct (queue ?s1)" using inv by (simp add: INV_def)
      have "w \<in> set (queue s) \<longrightarrow> k \<noteq> h" using tm k False by (auto simp: timed_def)
      from timed_drop_timer [OF tm this] have a: "timed w h t ?s1" .
      have other: "\<And>k'. entryTimer ?s1 u = Some k' \<Longrightarrow> u \<noteq> w \<Longrightarrow> w \<in> set (queue ?s1) \<Longrightarrow> k' \<noteq> h"
        using tm k u by (auto simp: timed_def)
      from timed_leave [where u = u and v = "Rejected (Error ''RateLimiter: acquire timeout'')"
          and r = TimedOut, OF a dq other]
      have "timed w h t (waiterTimeout u ?s1)"
        using u by (simp add: waiterTimeout_def entryReject_def)
      then show ?thesis using Some p WaiterTimeout by (simp add: fire_def)
    qed
  qed
qed

lemma timed_enqueued:
  assumes tm: "timed w h t s" and ti: "TINV s" and inv: "INV s"
  shows "timed w h t (enqueued t' s)" (is "timed w h t ?s'")
proof -
  note f = enqueued_fields [of t' s]
  from ti have c: "\<And>k x. timers s k = Some x \<Longrightarrow> k < nextTimer s"
    unfolding TINV_def by blast
  from inv have q: "\<And>u. u \<in> set (queue s) \<Longrightarrow> u < nextEntry s"
    unfolding INV_def by blast
  from tm have a:
    "w \<in> set (queue s) \<Longrightarrow> entryTimer s w = Some h \<and> timers s h = Some (WaiterTimeout w, t)"
    "w \<notin> set (queue s) \<Longrightarrow> w \<in> fst ` set (removals s)"
    unfolding timed_def by blast+
  have 2: "w \<in> set (queue ?s') \<longrightarrow>
             entryTimer ?s' w = Some h \<and> timers ?s' h = Some (WaiterTimeout w, t)"
  proof
    assume m: "w \<in> set (queue ?s')"
    have qw: "w \<in> set (queue s)"
    proof (rule ccontr)
      assume n: "w \<notin> set (queue s)"
      with m have "w = nextEntry s" by (simp add: f(1))
      moreover from a(2) [OF n] inv have "w < nextEntry s" unfolding INV_def by fastforce
      ultimately show False by simp
    qed
    from q [OF qw] have ne: "w \<noteq> nextEntry s" by simp
    from a(1) [OF qw] have e: "entryTimer s w = Some h" "timers s h = Some (WaiterTimeout w, t)"
      by simp_all
    from c [OF e(2)] have "h \<noteq> nextTimer s" by simp
    with e ne show "entryTimer ?s' w = Some h \<and> timers ?s' h = Some (WaiterTimeout w, t)"
      by (simp add: f(7,8))
  qed
  have 3: "w \<notin> set (queue ?s') \<longrightarrow> w \<in> fst ` set (removals ?s')"
    using a(2) by (simp add: f(1,2))
  show ?thesis unfolding timed_def using 2 3 by blast
qed

lemma timed_acquire:
  assumes tm: "timed w h t s" and ti: "TINV s" and inv: "INV s"
  shows "timed w h t (snd (acquire now1 now2 t' s))"
proof -
  let ?s1 = "snd (tryAcquire now1 s)"
  have a: "timed w h t ?s1" "TINV ?s1" "INV ?s1" using tm ti inv by simp_all
  have b: "timed w h t (enqueued t' ?s1)" by (rule timed_enqueued [OF a])
  have c: "TINV (enqueued t' ?s1)" by (rule TINV_enqueued [OF a(2)])
  show ?thesis
    using a(1) b timed_scheduleProcess [OF b c] by (simp add: acquire_unfold)
qed

lemma timed_step: "timed w h t s \<Longrightarrow> TINV s \<Longrightarrow> INV s \<Longrightarrow> timed w h t (step e s)"
  by (cases e) (simp_all add: timed_acquire timed_fire timed_shutdown)

lemma timed_run: "timed w h t s \<Longrightarrow> TINV s \<Longrightarrow> INV s \<Longrightarrow> timed w h t (run es s)"
  by (induction es arbitrary: s) (simp_all add: timed_step TINV_step INV_step)

lemma timed_after_acquire:
  assumes "0 < t" and "acquire now1 now2 (Some t) s = (Some w, s1)"
  shows "timed w (nextTimer s) t s1"
  using acquire_with_timeout [OF assms] unfolding timed_def by blast

lemma removals_grow_rejectAll: "set (removals s) \<subseteq> set (removals (rejectAll s))"
proof (induction s rule: rejectAll.induct)
  case (1 s)
  show ?case
  proof (cases "queue s")
    case Nil
    then show ?thesis by (simp add: rejectAll.simps [of s])
  next
    case (Cons e rest)
    let ?s' = "entryReject e (Error ''RateLimiter: shutdown'') (clearEntryTimer e
           (s\<lparr> queue := rest, removals := removals s @ [(e, ShutDown)] \<rparr>))"
    have "removals ?s' = removals s @ [(e, ShutDown)]" by simp
    with "1.IH" [OF Cons] have "set (removals s) \<subseteq> set (removals (rejectAll ?s'))"
      by auto
    then show ?thesis using Cons by (simp add: rejectAll.simps [of s])
  qed
qed

lemma removals_refillTokens [simp]: "removals (refillTokens now s) = removals s"
  by (simp add: refillTokens_def Let_def)

lemma removals_grow_step: "set (removals s) \<subseteq> set (removals (step e s))"
proof (cases e)
  case (TryAcquire now)
  then show ?thesis by simp
next
  case (Acquire now1 now2 t)
  then show ?thesis by (simp add: acquire_unfold enqueued_fields)
next
  case (Fire h now1 now2)
  show ?thesis
  proof (cases "timers s h")
    case None
    then show ?thesis using Fire by (simp add: fire_def)
  next
    case (Some p)
    obtain cb d where p: "p = (cb, d)" by (cases p)
    let ?s1 = "s\<lparr> timers := (timers s)(h := None) \<rparr>"
    show ?thesis
    proof (cases cb)
      case ProcessQueue
      have "set (removals s) \<subseteq> set (removals (processQueue now1 now2 ?s1))"
        using removals_grow_drainQueue [of "refillTokens now1 (?s1\<lparr> timer := None \<rparr>)"]
        by (simp add: processQueue_def Let_def)
      then show ?thesis using Fire Some p ProcessQueue by (simp add: fire_def)
    next
      case (WaiterTimeout u)
      have "set (removals s) \<subseteq> set (removals (waiterTimeout u ?s1))"
        by (auto simp: waiterTimeout_def)
      then show ?thesis using Fire Some p WaiterTimeout by (simp add: fire_def)
    qed
  qed
next
  case Shutdown
  show ?thesis
  proof (cases "timer s")
    case None
    then show ?thesis using Shutdown removals_grow_rejectAll [of s] by (simp add: shutdown_def)
  next
    case (Some h)
    then show ?thesis
      using Shutdown removals_grow_rejectAll [of "(clearTimeout h s)\<lparr> timer := None \<rparr>"]
      by (simp add: shutdown_def clearTimeout_def)
  qed
qed

lemma removals_grow_run: "set (removals s) \<subseteq> set (removals (run es s))"
proof (induction es arbitrary: s)
  case Nil
  then show ?case by simp
next
  case (Cons e es)
  from removals_grow_step [of s e] Cons [of "step e s"] show ?case by auto
qed

lemma once_in_distinct:
  "distinct (map fst xs) \<Longrightarrow> w \<in> fst ` set xs \<Longrightarrow> length (filter (\<lambda>p. fst p = w) xs) = 1"
proof (induction xs)
  case Nil
  then show ?case by simp
next
  case (Cons x xs)
  show ?case
  proof (cases "fst x = w")
    case True
    with Cons.prems(1) have "w \<notin> fst ` set xs" by auto
    then have "filter (\<lambda>p. fst p = w) xs = []" by (auto simp: filter_empty_conv)
    with True show ?thesis by simp
  next
    case False
    with Cons show ?thesis by auto
  qed
qed

lemma removed_for_good:
  assumes tm: "timed w h t s" and ti: "TINV s" and inv: "INV s"
  shows "w \<notin> set (queue (run es (fire h now1 now2 s)))"
    and "removalCount w (run es (fire h now1 now2 s)) = 1"
proof -
  let ?f = "fire h now1 now2 s"
  have invf: "INV ?f" by (rule INV_fire [OF inv])
  have "w \<in> fst ` set (removals ?f)"
  proof (cases "w \<in> set (queue s)")
    case True
    with tm have "timers s h = Some (WaiterTimeout w, t)" unfolding timed_def by blast
    from fire_timeout(1) [OF inv this, of now1 now2] show ?thesis by simp
  next
    case False
    with tm have "w \<in> fst ` set (removals s)" unfolding timed_def by blast
    with removals_grow_step [of s "Fire h now1 now2"] show ?thesis by auto
  qed
  with removals_grow_run [of ?f es] have r: "w \<in> fst ` set (removals (run es ?f))" by auto
  have invr: "INV (run es ?f)" by (rule INV_run [OF invf])
  then have d: "distinct (map fst (removals (run es ?f)))"
    and q: "\<And>u. u \<in> set (queue (run es ?f)) \<Longrightarrow> u \<notin> fst ` set (removals (run es ?f))"
    unfolding INV_def by blast+
  from q r show "w \<notin> set (queue (run es ?f))" by blast
  from once_in_distinct [OF d r] show "removalCount w (run es ?f) = 1"
    by (simp add: removalCount_def)
qed

lemma queued_or_removed_once:
  assumes tm: "timed w h t s" and inv: "INV s"
  shows "w \<in> set (queue s) \<and> removalCount w s = 0 \<or>
         w \<notin> set (queue s) \<and> removalCount w s = 1"
proof (cases "w \<in> set (queue s)")
  case True
  with inv have "w \<notin> fst ` set (removals s)" unfolding INV_def by blast
  then have "filter (\<lambda>p. fst p = w) (removals s) = []" by (auto simp: filter_empty_conv)
  with True show ?thesis by (simp add: removalCount_def)
next
  case False
  with tm have r: "w \<in> fst ` set (removals s)" unfolding timed_def by blast
  from inv have "distinct (map fst (removals s))" unfolding INV_def by blast
  from once_in_distinct [OF this r] False show ?thesis by (simp add: removalCount_def)
qed

text \<open>
  Claim C7 as stated fails: \<open>shutdown\<close> is a third way out of the queue.  On the limiter
  of rate 2 and capacity 1, \<open>acquire(100)\<close> after the only token was taken queues waiter
  0 with a timeout of its own; \<open>shutdown\<close> then removes it, rejecting its promise with the
  shutdown error, so it is neither granted a token nor timed out, and neither timer
  changes that at its due time.
\<close>

theorem waiter_shut_down_counterexample:
  "newRateLimiter 2 1 True 0 = Inr demo_limiter \<and>
   acquire 0 0 (Some 100) (run [TryAcquire 0] demo_limiter) = (Some 0, busy_limiter) \<and>
   queue busy_limiter = [0] \<and>
   entryTimer busy_limiter 0 = Some 1 \<and>
   timers busy_limiter 1 = Some (WaiterTimeout 0, 100) \<and>
   queue (shutdown busy_limiter) = [] \<and>
   removals (shutdown busy_limiter) = [(0, ShutDown)] \<and>
   promise (shutdown busy_limiter) 0 = Rejected (Error ''RateLimiter: shutdown'') \<and>
   removals (run shutdown_events busy_limiter) = [(0, ShutDown)] \<and>
   (0, Granted) \<notin> set (removals (run shutdown_events busy_limiter)) \<and>
   (0, TimedOut) \<notin> set (removals (run shutdown_events busy_limiter))"
  by (simp add: busy_limiter_def shutdown_events_def queued_events_def demo_limiter_def
      newRateLimiter_def limiter_eval)

text \<open>
  Claim C7, amended.  A waiter leaves the queue at most once, and it does so by being
  granted a token, by timing out or by \<open>shutdown\<close>, never by two of them.  In every state
  a limiter can reach, no waiter has left the queue more than once.  A queued waiter is
  pending and not yet removed.  Once a waiter was granted, its promise is resolved, it is
  out of the queue and no timeout of its own is active any more, so the timeout path
  cannot run; once it timed out, its promise is rejected with the timeout error and it is
  out of the queue, so queue processing cannot grant it; once it was shut down, its
  promise is rejected with the shutdown error, it is out of the queue and has no active
  timeout.  A waiter enqueued by \<open>acquire\<close> with a positive timeout is queued with an
  active timeout of its own, and whatever happens next: while it is queued it keeps that
  timeout, active, and has not left the queue; when it is not queued, it has left the queue
  exactly once; and whenever that timeout fires, the waiter is from then on out of the
  queue, having left it exactly once.  As long as an entry holds a timer, that timeout is
  active and the waiter is queued.  While its timeout is active the waiter is queued, and
  the timeout firing then removes it and rejects it; while it is at the head of the queue
  with a token available, queue processing grants it.
\<close>

theorem waiter_removed_once:
  assumes "newRateLimiter r c startFull t0 = Inr s0"
  shows "let s = run evs s0 in
     distinct (map fst (removals s)) \<and>
     (w \<in> set (queue s) \<longrightarrow> w \<notin> fst ` set (removals s) \<and> promise s w = Pending) \<and>
     ((w, Granted) \<in> set (removals s) \<longrightarrow>
        promise s w = Resolved \<and> w \<notin> set (queue s) \<and> timers s h \<noteq> Some (WaiterTimeout w, d)) \<and>
     ((w, TimedOut) \<in> set (removals s) \<longrightarrow>
        promise s w = Rejected (Error ''RateLimiter: acquire timeout'') \<and> w \<notin> set (queue s) \<and>
        timers s h \<noteq> Some (WaiterTimeout w, d)) \<and>
     ((w, ShutDown) \<in> set (removals s) \<longrightarrow>
        promise s w = Rejected (Error ''RateLimiter: shutdown'') \<and> w \<notin> set (queue s) \<and>
        timers s h \<noteq> Some (WaiterTimeout w, d)) \<and>
     (0 < t \<and> acquire now1 now2 (Some t) s = (Some w, s1) \<longrightarrow>
        w \<in> set (queue s1) \<and> entryTimer s1 w = Some (nextTimer s) \<and>
        timers s1 (nextTimer s) = Some (WaiterTimeout w, t) \<and>
        (let s2 = run evs' s1 in
           (w \<in> set (queue s2) \<longrightarrow>
              entryTimer s2 w = Some (nextTimer s) \<and>
              timers s2 (nextTimer s) = Some (WaiterTimeout w, t) \<and>
              removalCount w s2 = 0) \<and>
           (w \<notin> set (queue s2) \<longrightarrow> removalCount w s2 = 1) \<and>
           (let s3 = run evs'' (fire (nextTimer s) at1 at2 s2) in
              w \<notin> set (queue s3) \<and> removalCount w s3 = 1))) \<and>
     (entryTimer s w = Some h \<longrightarrow> w \<in> set (queue s) \<and> (\<exists>d'. timers s h = Some (WaiterTimeout w, d'))) \<and>
     (timers s h = Some (WaiterTimeout w, d) \<longrightarrow>
        w \<in> set (queue s) \<and>
        removals (fire h now1 now2 s) = removals s @ [(w, TimedOut)] \<and>
        w \<notin> set (queue (fire h now1 now2 s)) \<and>
        promise (fire h now1 now2 s) w = Rejected (Error ''RateLimiter: acquire timeout'')) \<and>
     (queue s = w # rest \<and> tokens s \<ge> 1 \<longrightarrow> (w, Granted) \<in> set (removals (drainQueue s)))"
proof -
  define s where "s = run evs s0"
  have inv: "INV s" unfolding s_def by (rule INV_run [OF INV_new [OF assms]])
  have tinv: "TINV s" unfolding s_def
    by (rule TINV_run [OF TINV_new [OF assms] INV_new [OF assms]])
  from inv have dr: "distinct (map fst (removals s))"
    and q: "\<And>u. u \<in> set (queue s) \<Longrightarrow> promise s u = Pending \<and> u \<notin> fst ` set (removals s)"
    and tm: "\<And>h u d. timers s h = Some (WaiterTimeout u, d) \<Longrightarrow> u \<in> set (queue s)"
    and rm: "\<And>u x. (u, x) \<in> set (removals s) \<Longrightarrow> promise s u = outcome x"
    unfolding INV_def by blast+
  from tinv have et: "\<And>u k. entryTimer s u = Some k \<Longrightarrow> \<exists>d. timers s k = Some (WaiterTimeout u, d)"
    unfolding TINV_def by blast
  have gone: "\<And>x. (w, x) \<in> set (removals s) \<Longrightarrow>
      w \<notin> set (queue s) \<and> timers s h \<noteq> Some (WaiterTimeout w, d)"
  proof -
    fix x assume m: "(w, x) \<in> set (removals s)"
    then have "w \<in> fst ` set (removals s)" by force
    with q have nq: "w \<notin> set (queue s)" by blast
    with tm show "w \<notin> set (queue s) \<and> timers s h \<noteq> Some (WaiterTimeout w, d)" by blast
  qed
  have 2: "w \<in> set (queue s) \<longrightarrow> w \<notin> fst ` set (removals s) \<and> promise s w = Pending"
    using q by blast
  have 3: "(w, Granted) \<in> set (removals s) \<longrightarrow>
        promise s w = Resolved \<and> w \<notin> set (queue s) \<and> timers s h \<noteq> Some (WaiterTimeout w, d)"
    using rm [of w Granted] gone [of Granted] by simp
  have 4: "(w, TimedOut) \<in> set (removals s) \<longrightarrow>
        promise s w = Rejected (Error ''RateLimiter: acquire timeout'') \<and> w \<notin> set (queue s) \<and>
        timers s h \<noteq> Some (WaiterTimeout w, d)"
    using rm [of w TimedOut] gone [of TimedOut] by simp
  have 5: "timers s h = Some (WaiterTimeout w, d) \<longrightarrow>
        w \<in> set (queue s) \<and>
        removals (fire h now1 now2 s) = removals s @ [(w, TimedOut)] \<and>
        w \<notin> set (queue (fire h now1 now2 s)) \<and>
        promise (fire h now1 now2 s) w = Rejected (Error ''RateLimiter: acquire timeout'')"
    using tm [of h w d] fire_timeout [OF inv, of h w d now1 now2] by blast
  have 6: "queue s = w # rest \<and> tokens s \<ge> 1 \<longrightarrow> (w, Granted) \<in> set (removals (drainQueue s))"
    using drainQueue_grants_head [of s w rest] by blast
  have 7: "0 < t \<and> acquire now1 now2 (Some t) s = (Some w, s1) \<longrightarrow>
        w \<in> set (queue s1) \<and> entryTimer s1 w = Some (nextTimer s) \<and>
        timers s1 (nextTimer s) = Some (WaiterTimeout w, t) \<and>
        (let s2 = run evs' s1 in
           (w \<in> set (queue s2) \<longrightarrow>
              entryTimer s2 w = Some (nextTimer s) \<and>
              timers s2 (nextTimer s) = Some (WaiterTimeout w, t) \<and>
              removalCount w s2 = 0) \<and>
           (w \<notin> set (queue s2) \<longrightarrow> removalCount w s2 = 1) \<and>
           (let s3 = run evs'' (fire (nextTimer s) at1 at2 s2) in
              w \<notin> set (queue s3) \<and> removalCount w s3 = 1))"
  proof
    assume a: "0 < t \<and> acquire now1 now2 (Some t) s = (Some w, s1)"
    then have pos: "0 < t" and acq: "acquire now1 now2 (Some t) s = (Some w, s1)" by simp_all
    from acq have s1: "s1 = snd (acquire now1 now2 (Some t) s)" by simp
    have i1: "INV s1" unfolding s1 by (rule INV_acquire [OF inv])
    have t1: "TINV s1" unfolding s1 by (rule TINV_acquire [OF tinv])
    have m1: "timed w (nextTimer s) t s1" by (rule timed_after_acquire [OF pos acq])
    define s2 where "s2 = run evs' s1"
    have i2: "INV s2" unfolding s2_def by (rule INV_run [OF i1])
    have t2: "TINV s2" unfolding s2_def by (rule TINV_run [OF t1 i1])
    have m2: "timed w (nextTimer s) t s2" unfolding s2_def by (rule timed_run [OF m1 t1 i1])
    from m2 have k: "w \<in> set (queue s2) \<longrightarrow>
        entryTimer s2 w = Some (nextTimer s) \<and> timers s2 (nextTimer s) = Some (WaiterTimeout w, t)"
      unfolding timed_def by blast
    note c = queued_or_removed_once [OF m2 i2]
    note g = removed_for_good [OF m2 t2 i2, of evs'' at1 at2]
    from acquire_with_timeout [OF pos acq] k c g
    show "w \<in> set (queue s1) \<and> entryTimer s1 w = Some (nextTimer s) \<and>
        timers s1 (nextTimer s) = Some (WaiterTimeout w, t) \<and>
        (let s2 = run evs' s1 in
           (w \<in> set (queue s2) \<longrightarrow>
              entryTimer s2 w = Some (nextTimer s) \<and>
              timers s2 (nextTimer s) = Some (WaiterTimeout w, t) \<and>
              removalCount w s2 = 0) \<and>
           (w \<notin> set (queue s2) \<longrightarrow> removalCount w s2 = 1) \<and>
           (let s3 = run evs'' (fire (nextTimer s) at1 at2 s2) in
              w \<notin> set (queue s3) \<and> removalCount w s3 = 1))"
      unfolding Let_def s2_def [symmetric] by blast
  qed
  have 9: "(w, ShutDown) \<in> set (removals s) \<longrightarrow>
        promise s w = Rejected (Error ''RateLimiter: shutdown'') \<and> w \<notin> set (queue s) \<and>
        timers s h \<noteq> Some (WaiterTimeout w, d)"
    using rm [of w ShutDown] gone [of ShutDown] by simp
  have 8: "entryTimer s w = Some h \<longrightarrow>
        w \<in> set (queue s) \<and> (\<exists>d'. timers s h = Some (WaiterTimeout w, d'))"
    using et [of w h] tm [of h w] by blast
  show ?thesis unfolding s_def [symmetric] Let_def [of s] using dr 2 3 4 5 6 7 8 9 by blast
qed

lemma untimed_after_acquire:
  assumes inv: "INV s" and na: "\<not> attached t" and acq: "acquire now1 now2 t s = (Some w, s1)"
  shows "untimed w s1" and "entryTimer s1 w = None" and "w \<in> set (queue s1)"
proof -
  let ?s' = "snd (tryAcquire now1 s)"
  let ?e = "enqueued t ?s'"
  from acq have w: "w = nextEntry s"
    and s1: "s1 = (if timer s = None then scheduleProcess now2 ?e else ?e)"
    by (auto simp: acquire_unfold split: if_splits)
  from inv have q: "\<And>u. u \<in> set (queue s) \<Longrightarrow> u < nextEntry s"
    and tm: "\<And>h u d. timers s h = Some (WaiterTimeout u, d) \<Longrightarrow> u \<in> set (queue s)"
    and rm: "\<And>u x. (u, x) \<in> set (removals s) \<Longrightarrow> u < nextEntry s"
    unfolding INV_def by blast+
  have nt: "\<And>h d. timers s h \<noteq> Some (WaiterTimeout w, d)"
    using tm q unfolding w by fastforce
  have nr: "(w, TimedOut) \<notin> set (removals s)"
    using rm unfolding w by fastforce
  have e: "untimed w ?e"
    unfolding untimed_def enqueued_fields using na nt nr by (simp add: w)
  show "untimed w s1" unfolding s1 using e by (simp add: untimed_scheduleProcess)
  show "entryTimer s1 w = None" unfolding s1 using na by (simp add: enqueued_fields w)
  show "w \<in> set (queue s1)" unfolding s1 by (simp add: enqueued_fields w)
qed

text \<open>
  Claim C9.  When \<open>acquire\<close> is called with the timeout omitted, zero or negative and no
  token is available at once, the new entry gets no timer; and whatever happens to the
  limiter afterwards, no timeout of that waiter is ever active, it never leaves the queue
  by timing out and its promise is never rejected with the acquire-timeout error: it
  stays queued and pending until it is granted a token or the limiter is shut down.
\<close>

theorem no_timer_without_timeout:
  assumes "newRateLimiter r c startFull t0 = Inr s0"
    and "case timeoutMs of None \<Rightarrow> True | Some t \<Rightarrow> t \<le> 0"
    and "acquire now1 now2 timeoutMs (run evs s0) = (Some w, s1)"
  shows "entryTimer s1 w = None \<and> w \<in> set (queue s1) \<and>
     (let s' = run evs' s1 in
        timers s' h \<noteq> Some (WaiterTimeout w, d) \<and>
        (w, TimedOut) \<notin> set (removals s') \<and>
        promise s' w \<noteq> Rejected (Error ''RateLimiter: acquire timeout'') \<and>
        (w \<in> set (queue s') \<and> promise s' w = Pending
           \<or> (w, Granted) \<in> set (removals s') \<or> (w, ShutDown) \<in> set (removals s')))"
proof -
  have inv: "INV (run evs s0)" by (rule INV_run [OF INV_new [OF assms(1)]])
  have na: "\<not> attached timeoutMs" using assms(2) by (cases timeoutMs) (simp_all add: attached_def)
  note a = untimed_after_acquire [OF inv na assms(3)]
  have inv1: "INV s1" using INV_acquire [OF inv, of now1 now2 timeoutMs] assms(3) by simp
  define s' where "s' = run evs' s1"
  have u: "untimed w s'" and i: "INV s'"
    unfolding s'_def by (rule untimed_run [OF a(1)], rule INV_run [OF inv1])
  from i have q: "\<And>u. u \<in> set (queue s') \<Longrightarrow> promise s' u = Pending"
    and rm: "\<And>u x. (u, x) \<in> set (removals s') \<Longrightarrow> promise s' u = outcome x"
    unfolding INV_def by blast+
  from u have 1: "timers s' h \<noteq> Some (WaiterTimeout w, d)"
    and 2: "(w, TimedOut) \<notin> set (removals s')"
    and 3: "w \<in> set (queue s') \<or> (w, Granted) \<in> set (removals s')
              \<or> (w, ShutDown) \<in> set (removals s')"
    unfolding untimed_def by blast+
  have 4: "promise s' w \<noteq> Rejected (Error ''RateLimiter: acquire timeout'')"
    using 3 q [of w] rm [of w Granted] rm [of w ShutDown] by auto
  have 5: "w \<in> set (queue s') \<and> promise s' w = Pending
           \<or> (w, Granted) \<in> set (removals s') \<or> (w, ShutDown) \<in> set (removals s')"
    using 3 q [of w] by blast
  show ?thesis unfolding Let_def s'_def [symmetric] using a(2,3) 1 2 4 5 by blast
qed

subsection \<open>After shutdown\<close>

lemma refillTokens_frame2 [simp]:
  "queue (refillTokens now s) = queue s"
  "timer (refillTokens now s) = timer s"
  "nextEntry (refillTokens now s) = nextEntry s"
  "nextTimer (refillTokens now s) = nextTimer s"
  by (simp_all add: refillTokens_def Let_def)

lemma refillTokens_bucket_cong:
  "bucket s' = bucket s \<Longrightarrow> bucket (refillTokens now s') = bucket (refillTokens now s)"
  by (simp add: bucket_def refillTokens_def Let_def)

lemma tryAcquire_nextTimer [simp]: "nextTimer (snd (tryAcquire now s)) = nextTimer s"
  by (simp add: tryAcquire_def refillTokens_def Let_def)

lemma scheduleProcess_nextEntry [simp]: "nextEntry (scheduleProcess now s) = nextEntry s"
  by (simp add: scheduleProcess_def refillTokens_def setTimeout_def Let_def)

lemma acquire_view_cong:
  assumes "limiterView s' = limiterView s"
  shows "fst (acquire now1 now2 t s') = fst (acquire now1 now2 t s) \<and>
         limiterView (snd (acquire now1 now2 t s')) = limiterView (snd (acquire now1 now2 t s))"
proof -
  from assms have b: "bucket s' = bucket s" and q: "queue s' = queue s" and tm: "timer s' = timer s"
    and ne: "nextEntry s' = nextEntry s" and nt: "nextTimer s' = nextTimer s"
    by (simp_all add: limiterView_def)
  note ta = tryAcquire_bucket [OF b, of now1]
  let ?a' = "snd (tryAcquire now1 s')" and ?a = "snd (tryAcquire now1 s)"
  have e: "limiterView (enqueued t ?a') = limiterView (enqueued t ?a)"
    using ta q tm ne nt
    by (simp add: limiterView_def enqueued_fields enqueued_nextTimer)
  have sp: "limiterView (scheduleProcess now2 (enqueued t ?a')) =
            limiterView (scheduleProcess now2 (enqueued t ?a))"
    using e refillTokens_bucket_cong [of "enqueued t ?a'" "enqueued t ?a" now2]
    by (simp add: limiterView_def scheduleProcess_bucket scheduleProcess_timers(2))
  show ?thesis
    using ta q tm ne nt e sp
    by (simp add: acquire_unfold limiterView_def)
qed

lemma rejectAll_nextTimer: "nextTimer (rejectAll s) = nextTimer s"
proof (induction s rule: rejectAll.induct)
  case (1 s)
  show ?case
  proof (cases "queue s")
    case Nil
    then show ?thesis by (simp add: rejectAll.simps [of s])
  next
    case (Cons e rest)
    then show ?thesis using 1 [OF Cons] by (simp add: rejectAll.simps [of s])
  qed
qed

lemma shutdown_view: "limiterView (shutdown s) = limiterView (s\<lparr> queue := [], timer := None \<rparr>)"
  using shutdown_bucket [of s] shutdown_frame [of s]
  by (simp add: limiterView_def bucket_def)
     (simp add: shutdown_def rejectAll_nextTimer clearTimeout_def split: option.splits)

text \<open>
  Claim C10 as stated fails for \<open>acquire\<close>: on a busy limiter (a waiter queued, the
  processing timer pending) an \<open>acquire\<close> that has to wait queues behind the waiter and
  skips \<open>scheduleProcess\<close>, whereas after \<open>shutdown\<close> it is first in line and
  \<open>scheduleProcess\<close> refills once more.  With the clock read at 100 and then at 150 the
  two limiters end with different tokens, \<open>lastRefill\<close> and queue.
\<close>

theorem acquire_after_shutdown_counterexample:
  "queue busy_limiter = [0] \<and> timer busy_limiter = Some 2 \<and>
   tokens (snd (acquire 100 150 None busy_limiter)) = 1 / 5 \<and>
   tokens (snd (acquire 100 150 None (shutdown busy_limiter))) = 3 / 10 \<and>
   lastRefill (snd (acquire 100 150 None busy_limiter)) = 100 \<and>
   lastRefill (snd (acquire 100 150 None (shutdown busy_limiter))) = 150 \<and>
   queue (snd (acquire 100 150 None busy_limiter)) = [0, 1] \<and>
   queue (snd (acquire 100 150 None (shutdown busy_limiter))) = [1] \<and>
   tokens (snd (acquire 100 150 None (shutdown busy_limiter)))
     \<noteq> tokens (snd (acquire 100 150 None busy_limiter))"
  by (simp add: busy_limiter_def queued_events_def demo_limiter_def limiter_eval)

text \<open>
  Claim C10, amended.  \<open>shutdown\<close> leaves \<open>tokens\<close> and \<open>lastRefill\<close> (and the rate and
  the capacity) unchanged; it only empties the queue, clears the limiter's timer, cancels
  timeouts and rejects the queued waiters.  So \<open>tryAcquire\<close> afterwards returns what it
  would have returned without the shutdown, with the same bucket, and \<open>acquire\<close> takes
  the fast path in the same cases, with the same bucket.  An \<open>acquire\<close> that has to wait
  behaves after \<open>shutdown\<close> as on the same limiter with an empty queue and no timer
  pending: same promise, tokens, \<open>lastRefill\<close>, queue and timer; the caller is queued,
  pending, first in line, with processing scheduled.  On an idle limiter, with nobody
  queued and no timer pending, \<open>shutdown\<close> changes nothing at all, so there both calls
  behave exactly as without it.
\<close>

theorem shutdown_keeps_bucket:
  "tokens (shutdown s) = tokens s \<and> lastRefill (shutdown s) = lastRefill s \<and>
   tokensPerSecond (shutdown s) = tokensPerSecond s \<and> bucketSize (shutdown s) = bucketSize s \<and>
   queue (shutdown s) = [] \<and> timer (shutdown s) = None \<and>
   fst (tryAcquire now (shutdown s)) = fst (tryAcquire now s) \<and>
   bucket (snd (tryAcquire now (shutdown s))) = bucket (snd (tryAcquire now s)) \<and>
   (fst (acquire now now2 t (shutdown s)) = None) = (fst (acquire now now2 t s) = None) \<and>
   (if fst (tryAcquire now s)
    then bucket (snd (acquire now now2 t (shutdown s))) = bucket (snd (acquire now now2 t s))
    else fst (acquire now now2 t (shutdown s)) = Some (nextEntry s) \<and>
         queue (snd (acquire now now2 t (shutdown s))) = [nextEntry s] \<and>
         promise (snd (acquire now now2 t (shutdown s))) (nextEntry s) = Pending \<and>
         timer (snd (acquire now now2 t (shutdown s))) \<noteq> None) \<and>
   fst (acquire now now2 t (shutdown s)) =
     fst (acquire now now2 t (s\<lparr> queue := [], timer := None \<rparr>)) \<and>
   tokens (snd (acquire now now2 t (shutdown s))) =
     tokens (snd (acquire now now2 t (s\<lparr> queue := [], timer := None \<rparr>))) \<and>
   lastRefill (snd (acquire now now2 t (shutdown s))) =
     lastRefill (snd (acquire now now2 t (s\<lparr> queue := [], timer := None \<rparr>))) \<and>
   queue (snd (acquire now now2 t (shutdown s))) =
     queue (snd (acquire now now2 t (s\<lparr> queue := [], timer := None \<rparr>))) \<and>
   timer (snd (acquire now now2 t (shutdown s))) =
     timer (snd (acquire now now2 t (s\<lparr> queue := [], timer := None \<rparr>))) \<and>
   (queue s = [] \<and> timer s = None \<longrightarrow>
      shutdown s = s \<and> tryAcquire now (shutdown s) = tryAcquire now s \<and>
      acquire now now2 t (shutdown s) = acquire now now2 t s)"
proof -
  have b: "bucket (shutdown s) = bucket s" by (rule shutdown_bucket)
  have 6: "queue s = [] \<and> timer s = None \<longrightarrow>
      shutdown s = s \<and> tryAcquire now (shutdown s) = tryAcquire now s \<and>
      acquire now now2 t (shutdown s) = acquire now now2 t s"
    by (simp add: shutdown_def rejectAll.simps [of s])
  have 5: "fst (acquire now now2 t (shutdown s)) =
     fst (acquire now now2 t (s\<lparr> queue := [], timer := None \<rparr>)) \<and>
   tokens (snd (acquire now now2 t (shutdown s))) =
     tokens (snd (acquire now now2 t (s\<lparr> queue := [], timer := None \<rparr>))) \<and>
   lastRefill (snd (acquire now now2 t (shutdown s))) =
     lastRefill (snd (acquire now now2 t (s\<lparr> queue := [], timer := None \<rparr>))) \<and>
   queue (snd (acquire now now2 t (shutdown s))) =
     queue (snd (acquire now now2 t (s\<lparr> queue := [], timer := None \<rparr>))) \<and>
   timer (snd (acquire now now2 t (shutdown s))) =
     timer (snd (acquire now now2 t (s\<lparr> queue := [], timer := None \<rparr>)))"
    using acquire_view_cong [OF shutdown_view, of now now2 t s]
    by (simp add: limiterView_def bucket_def)
  note ta = tryAcquire_bucket [OF b, of now]
  have 1: "tokens (shutdown s) = tokens s \<and> lastRefill (shutdown s) = lastRefill s \<and>
   tokensPerSecond (shutdown s) = tokensPerSecond s \<and> bucketSize (shutdown s) = bucketSize s"
    using b by (simp add: bucket_def)
  have 2: "(fst (acquire now now2 t (shutdown s)) = None) = (fst (acquire now now2 t s) = None)"
    using ta acquire_fast [of now s now2 t] acquire_fast [of now "shutdown s" now2 t]
      acquire_slow [of now s now2 t] acquire_slow [of now "shutdown s" now2 t]
    by (cases "fst (tryAcquire now s)") simp_all
  have 3: "fst (tryAcquire now s) \<Longrightarrow>
      bucket (snd (acquire now now2 t (shutdown s))) = bucket (snd (acquire now now2 t s))"
    using ta acquire_fast [of now s now2 t] acquire_fast [of now "shutdown s" now2 t] by simp
  have 4: "\<not> fst (tryAcquire now s) \<Longrightarrow>
         fst (acquire now now2 t (shutdown s)) = Some (nextEntry s) \<and>
         queue (snd (acquire now now2 t (shutdown s))) = [nextEntry s] \<and>
         promise (snd (acquire now now2 t (shutdown s))) (nextEntry s) = Pending \<and>
         timer (snd (acquire now now2 t (shutdown s))) \<noteq> None"
    using ta acquire_slow [of now "shutdown s" now2 t] by (simp add: shutdown_frame)
  show ?thesis using 1 2 3 4 5 6 ta shutdown_frame [of s] by simp
qed

subsection \<open>Sample runs\<close>

lemma demo_run: 
  "removals (run demo_events demo_limiter) = [(0, Granted)]"
  "promise (run demo_events demo_limiter) 0 = Resolved"
  "timers (run demo_events demo_limiter) 1 = None"
  "queue (run demo_events demo_limiter) = []"
  by (simp_all add: demo_events_def demo_limiter_def limiter_eval)

lemma timeout_run: 
  "removals (run timeout_events demo_limiter) = [(0, TimedOut)]"
  "promise (run timeout_events demo_limiter) 0 = Rejected (Error ''RateLimiter: acquire timeout'')"
  "queue (run timeout_events demo_limiter) = []"
  "tokens (run timeout_events demo_limiter) = 1"
  by (simp_all add: timeout_events_def demo_limiter_def limiter_eval)

lemma queued_run:
  "timers (run queued_events demo_limiter) 1 = Some (WaiterTimeout 0, 100)"
  "timers (run queued_events demo_limiter) 2 = Some (ProcessQueue, 500)"
  "queue (run queued_events demo_limiter) = [0]"
  "removals (run queued_events demo_limiter) = []"
  "promise (run queued_events demo_limiter) 0 = Pending"
  "tokens (run queued_events demo_limiter) = 0"
  "removals (fire 1 100 100 (run queued_events demo_limiter)) = [(0, TimedOut)]"
  "removals (shutdown (run queued_events demo_limiter)) = [(0, ShutDown)]"
  "promise (shutdown (run queued_events demo_limiter)) 0 = Rejected (Error ''RateLimiter: shutdown'')"
  "timers (shutdown (run queued_events demo_limiter)) 1 = None"
  "timers (shutdown (run queued_events demo_limiter)) 2 = None"
  by (simp_all add: queued_events_def demo_limiter_def limiter_eval)

lemma queued_acquire:
  "acquire 0 0 (Some 100) (run [TryAcquire 0] demo_limiter)
     = (Some 0, run queued_events demo_limiter)"
  by (simp add: queued_events_def demo_limiter_def limiter_eval)

lemma queued_more:
  "entryTimer (run queued_events demo_limiter) 0 = Some 1"
  "queue (refillTokens 500 (run queued_events demo_limiter)) = [0]"
  "tokens (refillTokens 500 (run queued_events demo_limiter)) = 1"
  "removals (drainQueue (refillTokens 500 (run queued_events demo_limiter))) = [(0, Granted)]"
  by (simp_all add: queued_events_def demo_limiter_def limiter_eval)

lemma probe_run:
  "nextTimer (run [TryAcquire 0] demo_limiter) = 1"
  "queue (run probe_events (run queued_events demo_limiter)) = [0]"
  "entryTimer (run probe_events (run queued_events demo_limiter)) 0 = Some 1"
  "timers (run probe_events (run queued_events demo_limiter)) 1 = Some (WaiterTimeout 0, 100)"
  "removalCount 0 (run probe_events (run queued_events demo_limiter)) = 0"
  "queue (run late_events (fire 1 100 100 (run probe_events (run queued_events demo_limiter)))) = []"
  "removals (run late_events (fire 1 100 100 (run probe_events (run queued_events demo_limiter))))
     = [(0, TimedOut)]"
  "removalCount 0 (run late_events (fire 1 100 100 (run probe_events (run queued_events demo_limiter))))
     = 1"
  by (simp_all add: probe_events_def late_events_def queued_events_def demo_limiter_def
      removalCount_def limiter_eval)

theorem waiter_removed_once_witness:
  "newRateLimiter 2 1 True 0 = Inr demo_limiter \<and>
   acquire 0 0 (Some 100) (run [TryAcquire 0] demo_limiter)
     = (Some 0, run queued_events demo_limiter) \<and>
   nextTimer (run [TryAcquire 0] demo_limiter) = 1 \<and>
   queue (run probe_events (run queued_events demo_limiter)) = [0] \<and>
   entryTimer (run probe_events (run queued_events demo_limiter)) 0 = Some 1 \<and>
   timers (run probe_events (run queued_events demo_limiter)) 1 = Some (WaiterTimeout 0, 100) \<and>
   removalCount 0 (run probe_events (run queued_events demo_limiter)) = 0 \<and>
   0 \<notin> set (queue (run late_events (fire 1 100 100
          (run probe_events (run queued_events demo_limiter))))) \<and>
   removals (run late_events (fire 1 100 100 (run probe_events (run queued_events demo_limiter))))
     = [(0, TimedOut)] \<and>
   removalCount 0 (run late_events (fire 1 100 100
          (run probe_events (run queued_events demo_limiter)))) = 1 \<and>
   queue (run queued_events demo_limiter) = [0] \<and>
   entryTimer (run queued_events demo_limiter) 0 = Some 1 \<and>
   timers (run queued_events demo_limiter) 1 = Some (WaiterTimeout 0, 100) \<and>
   promise (run queued_events demo_limiter) 0 = Pending \<and>
   removals (fire 1 100 100 (run queued_events demo_limiter)) = [(0, TimedOut)] \<and>
   queue (refillTokens 500 (run queued_events demo_limiter)) = [0] \<and>
   tokens (refillTokens 500 (run queued_events demo_limiter)) \<ge> 1 \<and>
   (0, Granted) \<in> set (removals (drainQueue (refillTokens 500 (run queued_events demo_limiter)))) \<and>
   removals (run demo_events demo_limiter) = [(0, Granted)] \<and>
   distinct (map fst (removals (run demo_events demo_limiter))) \<and>
   promise (run demo_events demo_limiter) 0 = Resolved \<and>
   timers (run demo_events demo_limiter) 1 \<noteq> Some (WaiterTimeout 0, 100) \<and>
   removals (run timeout_events demo_limiter) = [(0, TimedOut)] \<and>
   promise (run timeout_events demo_limiter) 0 = Rejected (Error ''RateLimiter: acquire timeout'') \<and>
   0 \<notin> set (queue (run timeout_events demo_limiter))"
  using waiter_removed_once [OF demo_new, where evs = queued_events and w = 0 and h = 1
      and d = 100 and ?now1.0 = 100 and ?now2.0 = 100 and t = 100 and rest = "[]"
      and ?s1.0 = "run queued_events demo_limiter" and evs' = probe_events
      and evs'' = late_events and ?at1.0 = 100 and ?at2.0 = 100]
    waiter_removed_once [OF demo_new, where evs = "[TryAcquire 0]" and w = 0 and h = 1
      and d = 100 and ?now1.0 = 0 and ?now2.0 = 0 and t = 100 and rest = "[]"
      and ?s1.0 = "run queued_events demo_limiter" and evs' = probe_events
      and evs'' = late_events and ?at1.0 = 100 and ?at2.0 = 100]
    demo_new queued_acquire demo_run timeout_run queued_run queued_more probe_run
  by simp

theorem no_timer_without_timeout_witness:
  "newRateLimiter 2 1 True 0 = Inr demo_limiter \<and>
   fst (acquire 0 0 None (run [TryAcquire 0] demo_limiter)) = Some 0 \<and>
   entryTimer (snd (acquire 0 0 None (run [TryAcquire 0] demo_limiter))) 0 = None \<and>
   queue (snd (acquire 0 0 None (run [TryAcquire 0] demo_limiter))) = [0] \<and>
   timers (run [TryAcquire 100] (snd (acquire 0 0 None (run [TryAcquire 0] demo_limiter)))) 1
     = Some (ProcessQueue, 500) \<and>
   queue (run [TryAcquire 100] (snd (acquire 0 0 None (run [TryAcquire 0] demo_limiter))))
     = [0] \<and>
   promise (run [TryAcquire 100] (snd (acquire 0 0 None (run [TryAcquire 0] demo_limiter)))) 0
     = Pending \<and>
   removals (run [TryAcquire 100, Fire 1 500 500]
      (snd (acquire 0 0 (Some 0) (run [TryAcquire 0] demo_limiter)))) = [(0, Granted)] \<and>
   promise (run [TryAcquire 100, Fire 1 500 500]
      (snd (acquire 0 0 (Some 0) (run [TryAcquire 0] demo_limiter)))) 0 = Resolved"
  using no_timer_without_timeout [OF demo_new, where timeoutMs = None and evs = "[TryAcquire 0]"
      and ?now1.0 = 0 and ?now2.0 = 0 and w = 0 and evs' = "[TryAcquire 100]" and h = 1
      and d = 500 and ?s1.0 = "snd (acquire 0 0 None (run [TryAcquire 0] demo_limiter))"]
    no_timer_without_timeout [OF demo_new, where timeoutMs = "Some 0" and evs = "[TryAcquire 0]"
      and ?now1.0 = 0 and ?now2.0 = 0 and w = 0 and evs' = "[TryAcquire 100, Fire 1 500 500]"
      and h = 1 and d = 500
      and ?s1.0 = "snd (acquire 0 0 (Some 0) (run [TryAcquire 0] demo_limiter))"]
    demo_new
  by (simp add: demo_limiter_def limiter_eval)

theorem shutdown_keeps_bucket_witness:
  "queue (run queued_events demo_limiter) = [0] \<and>
   tokens (shutdown (run queued_events demo_limiter)) = 0 \<and>
   lastRefill (shutdown (run queued_events demo_limiter)) = 0 \<and>
   queue (shutdown (run queued_events demo_limiter)) = [] \<and>
   timer (shutdown (run queued_events demo_limiter)) = None \<and>
   promise (shutdown (run queued_events demo_limiter)) 0 = Rejected (Error ''RateLimiter: shutdown'') \<and>
   fst (tryAcquire 500 (shutdown (run queued_events demo_limiter))) \<and>
   fst (tryAcquire 500 (run queued_events demo_limiter)) \<and>
   \<not> fst (tryAcquire 100 (run queued_events demo_limiter)) \<and>
   fst (acquire 100 100 (Some 50) (shutdown (run queued_events demo_limiter))) = Some 1 \<and>
   queue (snd (acquire 100 100 (Some 50) (shutdown (run queued_events demo_limiter)))) = [1] \<and>
   promise (snd (acquire 100 100 (Some 50) (shutdown (run queued_events demo_limiter)))) 1 = Pending \<and>
   queue (run [TryAcquire 0] demo_limiter) = [] \<and>
   timer (run [TryAcquire 0] demo_limiter) = None \<and>
   fst (acquire 100 150 None (shutdown (run [TryAcquire 0] demo_limiter))) = Some 0 \<and>
   queue (snd (acquire 100 150 None (shutdown (run [TryAcquire 0] demo_limiter)))) = [0] \<and>
   tokens (snd (acquire 100 150 None (shutdown (run [TryAcquire 0] demo_limiter)))) = 3 / 10 \<and>
   tokens (snd (acquire 100 150 None (run [TryAcquire 0] demo_limiter))) = 3 / 10"
  using shutdown_keeps_bucket [of "run queued_events demo_limiter" 500 500 None]
    shutdown_keeps_bucket [of "run queued_events demo_limiter" 100 100 "Some 50"]
    shutdown_keeps_bucket [of "run [TryAcquire 0] demo_limiter" 100 150 None]
  by (simp add: queued_run)
     (simp add: queued_events_def demo_limiter_def limiter_eval)

section \<open>Properties of the orchestrator\<close>

subsection \<open>Fan-out and merge\<close>

lemma pushTagged_append: "pushTagged m acc items = acc @ map (tag m) items"
  unfolding pushTagged_def tag_def
  by (induction items arbitrary: acc) simp_all

lemma combine_aux:
  "k + length rs \<le> length models \<Longrightarrow>
   foldl (\<lambda>responses (result, index).
            case result of
              Fulfilled v \<Rightarrow> pushTagged (models ! index) responses (data v)
            | RejectedWith _ \<Rightarrow> responses)
     acc (zip rs [k ..< k + length rs])
   = acc @ concat (map (\<lambda>(result, m). case result of
                                          Fulfilled v \<Rightarrow> map (tag m) (data v)
                                        | RejectedWith _ \<Rightarrow> [])
                    (zip rs (drop k models)))"
proof (induction rs arbitrary: acc k)
  case Nil
  then show ?case by simp
next
  case (Cons r rs)
  then have k: "k < length models" and le: "Suc k + length rs \<le> length models" by simp_all
  have up: "[k ..< k + length (r # rs)] = k # [Suc k ..< Suc k + length rs]"
    by (subst upt_rec) simp
  have dr: "drop k models = models ! k # drop (Suc k) models"
    using k by (simp add: Cons_nth_drop_Suc)
  show ?case
    unfolding up dr using Cons.IH [OF le]
    by (cases r) (simp_all add: pushTagged_append)
qed

lemma combine_concat:
  assumes "length results = length models"
  shows "combine models results =
           concat (map (\<lambda>(result, m). case result of
                                          Fulfilled v \<Rightarrow> map (tag m) (data v)
                                        | RejectedWith _ \<Rightarrow> [])
                    (zip results models))"
  using combine_aux [of 0 results models "[]"] assms by (simp add: combine_def)

lemma task_contribution:
  "contribution m (fst (task rl api envs prompt onProgress m)) =
     (if fulfils onProgress envs m (fst (queryModel rl api (envs m) m prompt 3))
      then contribution m (fst (queryModel rl api (envs m) m prompt 3)) else [])"
  by (simp add: task_def catchBlock_def fulfils_def contribution_def pendingEvent_def
      successEvent_def Let_def split: sum.splits option.splits)

lemma task_events:
  "snd (task rl api envs prompt onProgress m) =
     emit onProgress (pendingEvent m) @
     (case notify onProgress (pendingEvent m) of
        Some _ \<Rightarrow> []
      | None \<Rightarrow> laterEvents onProgress envs m (fst (queryModel rl api (envs m) m prompt 3)))"
  by (simp add: task_def catchBlock_def laterEvents_def pendingEvent_def successEvent_def
      errorEvent_def Let_def split: sum.splits option.splits)

lemma queryAllModels_char:
  "fst (queryAllModels rl api envs prompt onProgress) =
     concat (map (\<lambda>m. if fulfils onProgress envs m (fst (queryModel rl api (envs m) m prompt 3))
                       then contribution m (fst (queryModel rl api (envs m) m prompt 3)) else [])
              MODELS)"
  "snd (queryAllModels rl api envs prompt onProgress) =
     map (\<lambda>m. emit onProgress (pendingEvent m) @
              (case notify onProgress (pendingEvent m) of
                 Some _ \<Rightarrow> []
               | None \<Rightarrow> laterEvents onProgress envs m (fst (queryModel rl api (envs m) m prompt 3))))
       MODELS"
proof -
  let ?out = "\<lambda>m. fst (task rl api envs prompt onProgress m)"
  let ?tasks = "map (task rl api envs prompt onProgress) MODELS"
  have len: "length (allSettled (map fst ?tasks)) = length MODELS"
    by (simp add: allSettled_def)
  have z: "zip (allSettled (map fst ?tasks)) MODELS =
             map (\<lambda>m. (case ?out m of Inl e \<Rightarrow> RejectedWith e | Inr v \<Rightarrow> Fulfilled v, m)) MODELS"
    by (simp add: allSettled_def zip_map1 zip_same_conv_map o_def)
  have "(\<lambda>m. case (case ?out m of Inl e \<Rightarrow> RejectedWith e | Inr v \<Rightarrow> Fulfilled v) of
                Fulfilled v \<Rightarrow> map (tag m) (data v) | RejectedWith _ \<Rightarrow> [])
        = (\<lambda>m. contribution m (?out m))"
    by (rule ext) (simp add: contribution_def split: sum.splits)
  then have "fst (queryAllModels rl api envs prompt onProgress) =
             concat (map (\<lambda>m. contribution m (?out m)) MODELS)"
    unfolding queryAllModels_def Let_def fst_conv combine_concat [OF len] z
    by (simp add: o_def)
  then show "fst (queryAllModels rl api envs prompt onProgress) =
     concat (map (\<lambda>m. if fulfils onProgress envs m (fst (queryModel rl api (envs m) m prompt 3))
                       then contribution m (fst (queryModel rl api (envs m) m prompt 3)) else [])
              MODELS)"
    by (simp only: task_contribution)
  show "snd (queryAllModels rl api envs prompt onProgress) =
     map (\<lambda>m. emit onProgress (pendingEvent m) @
              (case notify onProgress (pendingEvent m) of
                 Some _ \<Rightarrow> []
               | None \<Rightarrow> laterEvents onProgress envs m (fst (queryModel rl api (envs m) m prompt 3))))
       MODELS"
    by (simp add: queryAllModels_def Let_def task_events o_def)
qed




text \<open>
  Claim C2.  If the query of every backend fails, \<open>queryAllModels\<close> still returns, with the
  empty list, whatever the observer does; and an observer passed as \<open>onProgress\<close>, whose
  \<open>pending\<close> calls return so that the queries are made, receives for each backend its
  \<open>pending\<close> status followed by an \<open>error\<close> status carrying the message of that
  backend's failure.
\<close>

theorem all_backends_fail:
  assumes "\<forall>m\<in>set MODELS. fst (queryModel rl api (envs m) m prompt 3) = Inl (err m)"
  shows "fst (queryAllModels rl api envs prompt onProgress) = [] \<and>
         ((\<forall>m\<in>set MODELS. obs (pendingEvent m) = None) \<longrightarrow>
          snd (queryAllModels rl api envs prompt (Some obs)) =
            map (\<lambda>m. [\<lparr> model_st = m, status = PendingStatus, latency = None, error = None \<rparr>,
                      \<lparr> model_st = m, status = ErrorStatus, latency = None,
                        error = Some (message_of (err m)) \<rparr>])
              MODELS)"
  using assms
  by (simp add: queryAllModels_char fulfils_def laterEvents_def notify_def emit_def
      pendingEvent_def errorEvent_def)

lemma fulfils_Inr: "fulfils onProgress envs m settled \<Longrightarrow> \<exists>r. settled = Inr r"
  by (cases settled) (simp_all add: fulfils_def)

lemma queryModel_simulated:
  assumes "fst (queryModel rl (simulated clock rand) env m prompt 3) = Inr r"
  shows "data r = simulateAPICall (clock m 0) (rand m 0) m prompt"
  using assms
  by (auto simp: queryModel_def retryLoop.simps [of _ _ _ 3 0] simulated_def
      split: option.splits sum.splits)

text \<open>
  Claim C8.  With the built-in simulated backend, every item returned by
  \<open>queryAllModels\<close> comes from a model of \<open>MODELS\<close>, has that model in its \<open>model\<close>
  field and has \<open>sources\<close> equal to that model's name twice: once from
  \<open>simulateAPICall\<close> and once appended by \<open>queryAllModels\<close>.  So the name occurs at
  least twice in \<open>sources\<close> and is its last element.
\<close>

theorem simulated_sources_twice:
  "\<forall>item\<in>set (fst (queryAllModels rl (simulated clock rand) envs prompt onProgress)).
     model item \<in> set MODELS \<and>
     sources item = [model item, model item] \<and>
     2 \<le> count_list (sources item) (model item) \<and>
     last (sources item) = model item \<and>
     content item = ''Simulated response from '' @ model item"
proof
  fix item
  assume "item \<in> set (fst (queryAllModels rl (simulated clock rand) envs prompt onProgress))"
  then obtain m where m: "m \<in> set MODELS"
    and i: "item \<in> set (contribution m (fst (queryModel rl (simulated clock rand) (envs m) m prompt 3)))"
    by (auto simp: queryAllModels_char(1) split: if_splits)
  then obtain r where r: "fst (queryModel rl (simulated clock rand) (envs m) m prompt 3) = Inr r"
    and it: "item \<in> set (map (tag m) (data r))"
    by (cases "fst (queryModel rl (simulated clock rand) (envs m) m prompt 3)")
       (simp_all add: contribution_def)
  from it queryModel_simulated [OF r]
  have "item = tag m \<lparr> id_r = m @ ''-'' @ toString (clock m 0),
        content = ''Simulated response from '' @ m,
        confidence = rand m 0, sources = [m], model = m \<rparr>"
    by (simp add: simulateAPICall_def)
  then show "model item \<in> set MODELS \<and>
     sources item = [model item, model item] \<and>
     2 \<le> count_list (sources item) (model item) \<and>
     last (sources item) = model item \<and>
     content item = ''Simulated response from '' @ model item"
    using m by (simp add: tag_def)
qed

subsection \<open>Retry and backoff\<close>

lemma retryLoop_trace:
  assumes "\<forall>a. j \<le> a \<and> a < k \<longrightarrow> (\<exists>e. call a = Inl e)"
    and "j \<le> k" and "int k < retries"
    and "(\<exists>r. call k = Inr r) \<or> int k = retries - 1"
  shows "retryLoop call env m retries j =
           (case call k of
              Inl e \<Rightarrow> Inl e
            | Inr r \<Rightarrow> Inr \<lparr> data = r, timestamp = dateNow env, source = m \<rparr>,
            concat (map (\<lambda>a. [Attempt a, Sleep (backoffMs a (random env a))]) [j ..< k])
              @ [Attempt k])"
  using assms
proof (induction "k - j" arbitrary: j)
  case 0
  then have jk: "j = k" by simp
  show ?case
  proof (cases "call k")
    case (Inl e)
    with 0 have "int k = retries - 1" by auto
    with Inl jk 0 show ?thesis by (simp add: retryLoop.simps [of call env m retries k])
  next
    case (Inr r)
    with jk 0 show ?thesis by (simp add: retryLoop.simps [of call env m retries k])
  qed
next
  case (Suc n)
  then have lt: "j < k" by simp
  with Suc.prems obtain e where e: "call j = Inl e" by blast
  have nl: "int j < retries" "int j \<noteq> retries - 1" using lt Suc.prems(3) by simp_all
  have n: "n = k - Suc j" using Suc.hyps(2) by simp
  have pre: "\<forall>a. Suc j \<le> a \<and> a < k \<longrightarrow> (\<exists>e. call a = Inl e)" using Suc.prems(1) by simp
  have le: "Suc j \<le> k" using lt by simp
  note ih = Suc.hyps(1) [OF n pre le Suc.prems(3) Suc.prems(4)]
  have up: "[j ..< k] = j # [Suc j ..< k]" using lt by (simp add: upt_conv_Cons)
  show ?case
    unfolding up by (simp add: retryLoop.simps [of call env m retries j] e nl ih)
qed

lemma sleeps_trace:
  "sleeps (concat (map (\<lambda>a. [Attempt a, Sleep (f a)]) xs) @ [Attempt k]) = map f xs"
  by (induction xs) simp_all

text \<open>
  Claim C6, amended.  In \<open>queryModel\<close> with a limiter and a token acquired, let the
  attempts \<open>0, ..., k - 1\<close> fail and attempt \<open>k\<close> either succeed or be the last one
  (\<open>k = retries - 1\<close>).  Then every failed attempt \<open>a < k\<close> is followed by a wait of
  \<open>2^a * 1000 + floor(Math.random() * 200)\<close> ms, with no cap, and then by attempt
  \<open>a + 1\<close>; nothing follows attempt \<open>k\<close>; the result is the response of attempt \<open>k\<close> if
  it succeeded and its error otherwise.  For \<open>Math.random()\<close> in \<open>[0, 1)\<close> the jitter
  is an integer from 0 to 199.
\<close>

theorem queryModel_backoff:
  assumes "rateLimiters mdl = Some limiter" and "acquired env = Inr ()"
    and "\<forall>a<k. \<exists>e. apiCall mdl prompt a = Inl e"
    and "int k < retries"
    and "(\<exists>r. apiCall mdl prompt k = Inr r) \<or> int k = retries - 1"
  shows "snd (queryModel rateLimiters apiCall env mdl prompt retries) =
           concat (map (\<lambda>a. [Attempt a, Sleep (2 ^ a * 1000 + \<lfloor>random env a * 200\<rfloor>)]) [0 ..< k])
             @ [Attempt k] \<and>
         fst (queryModel rateLimiters apiCall env mdl prompt retries) =
           (case apiCall mdl prompt k of
              Inl e \<Rightarrow> Inl e
            | Inr r \<Rightarrow> Inr \<lparr> data = r, timestamp = dateNow env, source = mdl \<rparr>) \<and>
         (\<forall>a<k. 0 \<le> random env a \<and> random env a < 1 \<longrightarrow>
                 2 ^ a * 1000 \<le> backoffMs a (random env a) \<and>
                 backoffMs a (random env a) < 2 ^ a * 1000 + 200)"
proof -
  have pre: "\<forall>a. 0 \<le> a \<and> a < k \<longrightarrow> (\<exists>e. apiCall mdl prompt a = Inl e)"
    using assms(3) by simp
  have q: "queryModel rateLimiters apiCall env mdl prompt retries =
             retryLoop (apiCall mdl prompt) env mdl retries 0"
    using assms(1,2) by (simp add: queryModel_def)
  note t = retryLoop_trace [OF pre _ assms(4) assms(5), of env mdl]
  have j: "\<And>x::real. 0 \<le> x \<Longrightarrow> x < 1 \<Longrightarrow> 0 \<le> \<lfloor>x * 200\<rfloor> \<and> \<lfloor>x * 200\<rfloor> < 200"
    by (simp add: floor_less_iff)
  show ?thesis
    unfolding q using t j by (simp add: backoffMs_def Let_def)
qed

lemma all_failing_sleeps:
  "sleeps (snd (queryModel one_limiter failing calm_env mdl prompt (int n + 2))) =
     map (\<lambda>a. 2 ^ a * 1000) [0 ..< Suc n]"
proof -
  have tr: "snd (queryModel one_limiter failing calm_env mdl prompt (int n + 2)) =
           concat (map (\<lambda>a. [Attempt a, Sleep (backoffMs a (random calm_env a))]) [0 ..< Suc n])
             @ [Attempt (Suc n)]"
    using retryLoop_trace [of 0 "Suc n" "failing mdl prompt" "int n + 2" calm_env mdl]
    by (simp add: queryModel_def one_limiter_def calm_env_def failing_def)
  show ?thesis
    by (simp only: tr sleeps_trace) (simp add: backoffMs_def calm_env_def)
qed

text \<open>
  Claim C6 as stated fails: the waits are not capped.  With a backend that always fails
  and no jitter, 5 attempts wait 1000, 2000, 4000 and 8000 ms, and no \<open>cap\<close> makes the
  waits \<open>min(cap, 2^attempt * 1000)\<close> for every number of attempts.
\<close>

theorem backoff_cap_counterexample:
  "sleeps (snd (queryModel one_limiter failing calm_env ''Gemini'' ''hello'' 5))
     = [1000, 2000, 4000, 8000] \<and>
   \<not> (\<exists>cap. \<forall>retries.
          sleeps (snd (queryModel one_limiter failing calm_env ''Gemini'' ''hello'' retries))
            = map (\<lambda>attempt. min cap (2 ^ attempt * 1000) + \<lfloor>(0::real) * 200\<rfloor>)
                [0 ..< nat (retries - 1)])"
proof
  show "sleeps (snd (queryModel one_limiter failing calm_env ''Gemini'' ''hello'' 5))
     = [1000, 2000, 4000, 8000]"
    using all_failing_sleeps [of "''Gemini''" "''hello''" 3]
    by (simp add: eval_nat_numeral)
  show "\<not> (\<exists>cap. \<forall>retries.
          sleeps (snd (queryModel one_limiter failing calm_env ''Gemini'' ''hello'' retries))
            = map (\<lambda>attempt. min cap (2 ^ attempt * 1000) + \<lfloor>(0::real) * 200\<rfloor>)
                [0 ..< nat (retries - 1)])"
  proof
    assume "\<exists>cap. \<forall>retries.
          sleeps (snd (queryModel one_limiter failing calm_env ''Gemini'' ''hello'' retries))
            = map (\<lambda>attempt. min cap (2 ^ attempt * 1000) + \<lfloor>(0::real) * 200\<rfloor>)
                [0 ..< nat (retries - 1)]"
    then obtain cap :: int where c: "\<And>retries.
          sleeps (snd (queryModel one_limiter failing calm_env ''Gemini'' ''hello'' retries))
            = map (\<lambda>attempt. min cap (2 ^ attempt * 1000) + \<lfloor>(0::real) * 200\<rfloor>)
                [0 ..< nat (retries - 1)]"
      by blast
    define n where "n = nat \<bar>cap\<bar>"
    have "map (\<lambda>a. 2 ^ a * 1000) [0 ..< Suc n]
            = map (\<lambda>attempt. min cap (2 ^ attempt * 1000)) [0 ..< Suc n]"
      using c [of "int n + 2"] all_failing_sleeps [of "''Gemini''" "''hello''" n]
      by (simp add: nat_add_distrib)
    then have "(2::int) ^ n * 1000 = min cap (2 ^ n * 1000)"
      by simp
    then have "(2::int) ^ n * 1000 \<le> cap" by simp
    moreover have "cap \<le> int n" by (simp add: n_def)
    moreover have "int n < 2 ^ n" by (metis of_nat_less_two_power)
    ultimately show False by simp
  qed
qed

subsection \<open>Sample queries\<close>

lemmas orchestrator_eval =
  queryAllModels_def task_def catchBlock_def notify_def quiet_def queryModel_def retryLoop.simps allSettled_def combine_def
  pushTagged_def emit_def MODELS_def simulated_def simulateAPICall_def backoffMs_def
  toString_def decimal.simps digit_def one_limiter_def Let_def

lemma flaky_run:
  "queryModel one_limiter flaky jitter_env ''Gemini'' ''hello'' 3 =
     (Inr \<lparr> data = [\<lparr> id_r = ''Gemini-1650'', content = ''Simulated response from Gemini'',
                      confidence = 1 / 4, sources = [''Gemini''], model = ''Gemini'' \<rparr>],
            timestamp = 1700, source = ''Gemini'' \<rparr>,
      [Attempt 0, Sleep 1100, Attempt 1, Sleep 2100, Attempt 2])"
  by (simp add: orchestrator_eval flaky_def jitter_env_def)

lemma failing_run:
  "queryModel one_limiter failing jitter_env ''Gemini'' ''hello'' 3 =
     (Inl (Error ''unavailable''), [Attempt 0, Sleep 1100, Attempt 1, Sleep 2100, Attempt 2])"
  by (simp add: orchestrator_eval failing_def jitter_env_def)

theorem queryModel_backoff_witness:
  "one_limiter ''Gemini'' = Some demo_limiter \<and> acquired jitter_env = Inr () \<and>
   flaky ''Gemini'' ''hello'' 0 = Inl (Error ''unavailable'') \<and>
   flaky ''Gemini'' ''hello'' 1 = Inl (Error ''unavailable'') \<and>
   snd (queryModel one_limiter flaky jitter_env ''Gemini'' ''hello'' 3) =
     [Attempt 0, Sleep 1100, Attempt 1, Sleep 2100, Attempt 2] \<and>
   fst (queryModel one_limiter flaky jitter_env ''Gemini'' ''hello'' 3) =
     Inr \<lparr> data = [\<lparr> id_r = ''Gemini-1650'', content = ''Simulated response from Gemini'',
                     confidence = 1 / 4, sources = [''Gemini''], model = ''Gemini'' \<rparr>],
           timestamp = 1700, source = ''Gemini'' \<rparr> \<and>
   failing ''Gemini'' ''hello'' 2 = Inl (Error ''unavailable'') \<and>
   queryModel one_limiter failing jitter_env ''Gemini'' ''hello'' 3 =
     (Inl (Error ''unavailable''), [Attempt 0, Sleep 1100, Attempt 1, Sleep 2100, Attempt 2]) \<and>
   backoffMs 1 (random jitter_env 1) = 2100"
  using queryModel_backoff [where rateLimiters = one_limiter and mdl = "''Gemini''"
      and limiter = demo_limiter and env = jitter_env and k = 2 and apiCall = flaky
      and prompt = "''hello''" and retries = 3]
    queryModel_backoff [where rateLimiters = one_limiter and mdl = "''Gemini''"
      and limiter = demo_limiter and env = jitter_env and k = 2 and apiCall = failing
      and prompt = "''hello''" and retries = 3]
  by (simp add: flaky_run failing_run)
     (simp add: one_limiter_def jitter_env_def flaky_def failing_def backoffMs_def)

lemma sample_run:
  "queryAllModels one_limiter (simulated sample_clock sample_rand) sample_envs ''hello'' (Some quiet) =
     ([\<lparr> id_r = ''GPT-4o-1650'', content = ''Simulated response from GPT-4o'',
          confidence = 1 / 4, sources = [''GPT-4o'', ''GPT-4o''], model = ''GPT-4o'' \<rparr>,
       \<lparr> id_r = ''Gemini-1650'', content = ''Simulated response from Gemini'',
          confidence = 1 / 4, sources = [''Gemini'', ''Gemini''], model = ''Gemini'' \<rparr>],
      [[\<lparr> model_st = ''GPT-4o'', status = PendingStatus, latency = None, error = None \<rparr>,
        \<lparr> model_st = ''GPT-4o'', status = Success, latency = Some 700, error = None \<rparr>],
       [\<lparr> model_st = ''Claude Sonnet 3.5'', status = PendingStatus, latency = None, error = None \<rparr>,
        \<lparr> model_st = ''Claude Sonnet 3.5'', status = ErrorStatus, latency = None,
          error = Some ''RateLimiter: acquire timeout'' \<rparr>],
       [\<lparr> model_st = ''Gemini'', status = PendingStatus, latency = None, error = None \<rparr>,
        \<lparr> model_st = ''Gemini'', status = Success, latency = Some 700, error = None \<rparr>]])"
  by (simp add: orchestrator_eval sample_envs_def sample_clock_def sample_rand_def)

lemma outage_run:
  "queryAllModels one_limiter failing sample_envs ''hello'' (Some quiet) =
     ([],
      [[\<lparr> model_st = ''GPT-4o'', status = PendingStatus, latency = None, error = None \<rparr>,
        \<lparr> model_st = ''GPT-4o'', status = ErrorStatus, latency = None,
          error = Some ''unavailable'' \<rparr>],
       [\<lparr> model_st = ''Claude Sonnet 3.5'', status = PendingStatus, latency = None, error = None \<rparr>,
        \<lparr> model_st = ''Claude Sonnet 3.5'', status = ErrorStatus, latency = None,
          error = Some ''RateLimiter: acquire timeout'' \<rparr>],
       [\<lparr> model_st = ''Gemini'', status = PendingStatus, latency = None, error = None \<rparr>,
        \<lparr> model_st = ''Gemini'', status = ErrorStatus, latency = None,
          error = Some ''unavailable'' \<rparr>]])"
  by (simp add: orchestrator_eval sample_envs_def failing_def)




theorem all_backends_fail_witness:
  "fst (queryModel one_limiter failing (sample_envs ''GPT-4o'') ''GPT-4o'' ''hello'' 3)
     = Inl (Error ''unavailable'') \<and>
   fst (queryModel one_limiter failing (sample_envs ''Claude Sonnet 3.5'') ''Claude Sonnet 3.5''
          ''hello'' 3)
     = Inl (Error ''RateLimiter: acquire timeout'') \<and>
   fst (queryModel one_limiter failing (sample_envs ''Gemini'') ''Gemini'' ''hello'' 3)
     = Inl (Error ''unavailable'') \<and>
   quiet (pendingEvent ''GPT-4o'') = None \<and>
   quiet (pendingEvent ''Claude Sonnet 3.5'') = None \<and>
   quiet (pendingEvent ''Gemini'') = None \<and>
   queryAllModels one_limiter failing sample_envs ''hello'' (Some quiet) =
     ([],
      [[\<lparr> model_st = ''GPT-4o'', status = PendingStatus, latency = None, error = None \<rparr>,
        \<lparr> model_st = ''GPT-4o'', status = ErrorStatus, latency = None,
          error = Some ''unavailable'' \<rparr>],
       [\<lparr> model_st = ''Claude Sonnet 3.5'', status = PendingStatus, latency = None, error = None \<rparr>,
        \<lparr> model_st = ''Claude Sonnet 3.5'', status = ErrorStatus, latency = None,
          error = Some ''RateLimiter: acquire timeout'' \<rparr>],
       [\<lparr> model_st = ''Gemini'', status = PendingStatus, latency = None, error = None \<rparr>,
        \<lparr> model_st = ''Gemini'', status = ErrorStatus, latency = None,
          error = Some ''unavailable'' \<rparr>]])"
  using all_backends_fail [where rl = one_limiter and api = failing and envs = sample_envs
      and prompt = "''hello''" and onProgress = "Some quiet" and obs = quiet
      and err = "\<lambda>m. if m = ''Claude Sonnet 3.5''
                     then Error ''RateLimiter: acquire timeout'' else Error ''unavailable''"]
  by (simp add: outage_run) (simp add: orchestrator_eval sample_envs_def failing_def)

theorem simulated_sources_twice_witness:
  "fst (queryAllModels one_limiter (simulated sample_clock sample_rand) sample_envs ''hello'' (Some quiet)) =
     [\<lparr> id_r = ''GPT-4o-1650'', content = ''Simulated response from GPT-4o'',
         confidence = 1 / 4, sources = [''GPT-4o'', ''GPT-4o''], model = ''GPT-4o'' \<rparr>,
      \<lparr> id_r = ''Gemini-1650'', content = ''Simulated response from Gemini'',
         confidence = 1 / 4, sources = [''Gemini'', ''Gemini''], model = ''Gemini'' \<rparr>] \<and>
   count_list [''GPT-4o'', ''GPT-4o''] ''GPT-4o'' = 2 \<and>
   last [''Gemini'', ''Gemini''] = ''Gemini''"
  using simulated_sources_twice [of one_limiter sample_clock sample_rand sample_envs "''hello''" "Some quiet"]
  by (simp add: sample_run)

end
